theory Spec2Isabelle
  imports Main "HOL-Library.Word" "HOL-Library.Multiset"
begin

section \<open>Package lru: the byte-bounded least-recently-used store\<close>

text \<open>
  The Go store keeps a \<open>container/list\<close> of elements and a map from keys to pointers
  into that list; both refer to the same \<open>Entry\<close> objects, and \<open>Add\<close> overwrites the
  value of an entry through such a pointer.  The embedding keeps that sharing explicit:
  an element pointer is an address (a position in the append-only store \<open>elems\<close> of all
  elements ever allocated), the recency list \<open>ll\<close> is the list of addresses from front
  (most recently used) to back, and \<open>cache\<close> maps a key to an address.

  The capacity and the byte counter are Go \<open>int64\<close>: 64-bit words, whose addition and
  subtraction wrap around and which the code compares as signed numbers (\<open><s\<close>).  Go's
  \<open>int\<close> is taken to be 64 bits wide, so the \<open>int\<close> that \<open>Len\<close> returns and the length of
  a key convert to \<open>int64\<close> unchanged.  The \<open>Value\<close> interface is a type parameter \<open>'v\<close>
  together with its method \<open>Len\<close>, passed to every operation that calls it.  The
  eviction callback is a flag (is a callback configured) and the log \<open>evicted\<close> of the
  calls it received; the line count printed by \<open>RemoveOldest\<close> is not modelled.
\<close>

type_synonym int64 = "64 word"

record 'v Entry =
  key :: string
  val :: 'v

record 'v Cache =
  maxBytes :: int64
  nBytes :: int64
  ll :: "nat list"
  cache :: "string \<rightharpoonup> nat"
  OnEvicted :: bool
  elems :: "'v Entry list"
  evicted :: "(string \<times> 'v) list"

definition lru_New :: "int64 \<Rightarrow> bool \<Rightarrow> 'v Cache" where
  "lru_New maxBytes' onEvicted =
     \<lparr>maxBytes = maxBytes', nBytes = 0, ll = [], cache = Map.empty,
      OnEvicted = onEvicted, elems = [], evicted = []\<rparr>"

definition allocate :: "('v \<Rightarrow> int64) \<Rightarrow> 'v Cache \<Rightarrow> 'v Entry \<Rightarrow> 'v Cache" where
  "allocate Len c node = c\<lparr>nBytes := nBytes c + (Len (val node) + of_nat (length (key node)))\<rparr>"

definition deallocate :: "('v \<Rightarrow> int64) \<Rightarrow> 'v Cache \<Rightarrow> 'v Entry \<Rightarrow> 'v Cache" where
  "deallocate Len c node = c\<lparr>nBytes := nBytes c - (Len (val node) + of_nat (length (key node)))\<rparr>"

text \<open>The four \<open>container/list\<close> operations the store uses, on a list of addresses.\<close>

definition MoveToFront :: "nat \<Rightarrow> nat list \<Rightarrow> nat list" where
  "MoveToFront e l = (if e \<in> set l then e # remove1 e l else l)"

definition Remove :: "nat \<Rightarrow> nat list \<Rightarrow> nat list" where
  "Remove e l = remove1 e l"

definition Back :: "nat list \<Rightarrow> nat option" where
  "Back l = (if l = [] then None else Some (last l))"

definition PushFront :: "'v Cache \<Rightarrow> 'v Entry \<Rightarrow> nat \<times> 'v Cache" where
  "PushFront c ele =
     (let e = length (elems c)
      in (e, c\<lparr>elems := elems c @ [ele], ll := e # ll c\<rparr>))"

definition Cache_Get :: "'v Cache \<Rightarrow> string \<Rightarrow> 'v option \<times> 'v Cache" where
  "Cache_Get c k =
     (case cache c k of
        Some p \<Rightarrow> (Some (val (elems c ! p)), c\<lparr>ll := MoveToFront p (ll c)\<rparr>)
      | None \<Rightarrow> (None, c))"

definition Cache_RemoveOldest :: "('v \<Rightarrow> int64) \<Rightarrow> 'v Cache \<Rightarrow> 'v Cache" where
  "Cache_RemoveOldest Len c =
     (case Back (ll c) of
        None \<Rightarrow> c
      | Some oldest \<Rightarrow>
          (let kv = elems c ! oldest;
               c1 = c\<lparr>ll := Remove oldest (ll c)\<rparr>;
               c2 = deallocate Len c1 kv;
               c3 = c2\<lparr>cache := (cache c2)(key kv := None)\<rparr>
           in if OnEvicted c3 then c3\<lparr>evicted := evicted c3 @ [(key kv, val kv)]\<rparr> else c3))"

text \<open>
  \<open>Add\<close>, lines 124 to 140: replace the value of an existing key through its pointer,
  or push a new entry to the front.
\<close>

definition Add_upsert :: "('v \<Rightarrow> int64) \<Rightarrow> 'v Cache \<Rightarrow> string \<Rightarrow> 'v \<Rightarrow> 'v Cache" where
  "Add_upsert Len c k v =
     (case cache c k of
        Some p \<Rightarrow>
          (let kv = elems c ! p;
               c1 = deallocate Len c kv;
               kv' = kv\<lparr>val := v\<rparr>;
               c2 = c1\<lparr>elems := (elems c1)[p := kv']\<rparr>;
               c3 = allocate Len c2 kv'
           in c3\<lparr>ll := MoveToFront p (ll c3)\<rparr>)
      | None \<Rightarrow>
          (let ele = \<lparr>key = k, val = v\<rparr>;
               (listEle, c1) = PushFront c ele;
               c2 = allocate Len c1 ele
           in c2\<lparr>cache := (cache c2)(key ele \<mapsto> listEle)\<rparr>))"

text \<open>
  \<open>Add\<close>, lines 142 to 144: the eviction loop.  On an empty list \<open>RemoveOldest\<close> changes
  nothing, so the Go loop can run forever; not returning is the value \<open>None\<close>.
\<close>

partial_function (option) Add_evict :: "('v \<Rightarrow> int64) \<Rightarrow> 'v Cache \<Rightarrow> 'v Cache option" where
  "Add_evict Len c =
     (if maxBytes c \<noteq> 0 \<and> maxBytes c <s nBytes c
      then Add_evict Len (Cache_RemoveOldest Len c)
      else Some c)"

definition Cache_Add :: "('v \<Rightarrow> int64) \<Rightarrow> 'v Cache \<Rightarrow> string \<Rightarrow> 'v \<Rightarrow> 'v Cache option" where
  "Cache_Add Len c k v = Add_evict Len (Add_upsert Len c k v)"

definition Cache_Len :: "'v Cache \<Rightarrow> int" where
  "Cache_Len c = int (length (ll c))"

text \<open>Sequences of operations on a store.\<close>

datatype 'v lru_op = OpAdd string 'v | OpGet string | OpRemoveOldest

fun lru_step :: "('v \<Rightarrow> int64) \<Rightarrow> 'v Cache \<Rightarrow> 'v lru_op \<Rightarrow> 'v Cache option" where
  "lru_step Len c (OpAdd k v) = Cache_Add Len c k v"
| "lru_step Len c (OpGet k) = Some (snd (Cache_Get c k))"
| "lru_step Len c OpRemoveOldest = Some (Cache_RemoveOldest Len c)"

fun lru_run :: "('v \<Rightarrow> int64) \<Rightarrow> 'v Cache \<Rightarrow> 'v lru_op list \<Rightarrow> 'v Cache option" where
  "lru_run Len c [] = Some c"
| "lru_run Len c (x # xs) =
     (case lru_step Len c x of None \<Rightarrow> None | Some c' \<Rightarrow> lru_run Len c' xs)"

text \<open>
  The cost the store charges for an element and the bytes of the live entries, in the
  arithmetic of the code (\<open>int64\<close>, wrapping).
\<close>

definition cost :: "('v \<Rightarrow> int64) \<Rightarrow> 'v Entry \<Rightarrow> int64" where
  "cost Len e = of_nat (length (key e)) + Len (val e)"

definition live_bytes :: "('v \<Rightarrow> int64) \<Rightarrow> 'v Cache \<Rightarrow> int64" where
  "live_bytes Len c = (\<Sum>p\<leftarrow>ll c. cost Len (elems c ! p))"

text \<open>
  The same two quantities as the spec counts them, in the integers: the length of the key
  plus the length the value reports, summed over the live entries.
\<close>

definition int_cost :: "('v \<Rightarrow> int64) \<Rightarrow> 'v Entry \<Rightarrow> int" where
  "int_cost Len e = int (length (key e)) + sint (Len (val e))"

definition int_bytes :: "('v \<Rightarrow> int64) \<Rightarrow> 'v Cache \<Rightarrow> int" where
  "int_bytes Len c = (\<Sum>p\<leftarrow>ll c. int_cost Len (elems c ! p))"

text \<open>
  Two implementations of \<open>Value\<close> for examples: a string whose \<open>Len\<close> is its length, and a
  value that is nothing but the length it reports.
\<close>

definition string_Len :: "string \<Rightarrow> int64" where
  "string_Len s = of_nat (length s)"

definition declared_Len :: "int64 \<Rightarrow> int64" where
  "declared_Len v = v"

text \<open>
  The representation invariant of the store: the recency list has no repeated address,
  every listed address is allocated and is what the map holds for its entry's key, the map
  holds nothing else, and the byte counter is the sum of the costs of the listed entries.
\<close>

definition lru_inv :: "('v \<Rightarrow> int64) \<Rightarrow> 'v Cache \<Rightarrow> bool" where
  "lru_inv Len c \<longleftrightarrow>
     distinct (ll c) \<and>
     (\<forall>p\<in>set (ll c). p < length (elems c) \<and> cache c (key (elems c ! p)) = Some p) \<and>
     (\<forall>k p. cache c k = Some p \<longrightarrow> p \<in> set (ll c) \<and> key (elems c ! p) = k) \<and>
     nBytes c = live_bytes Len c"


text \<open>
  The keys a sequence of operations accesses, and the recency relation between a key \<open>K\<close>
  held at address \<open>p\<close> and the keys \<open>T\<close> accessed since \<open>K\<close> was last accessed: either
  \<open>K\<close> is still in the store and every entry in front of it has a key in \<open>T\<close>, or every
  entry of the store has a key in \<open>T\<close>.
\<close>

fun op_keys :: "'v lru_op \<Rightarrow> string set" where
  "op_keys (OpAdd k v) = {k}"
| "op_keys (OpGet k) = {k}"
| "op_keys OpRemoveOldest = {}"

definition touched :: "'v lru_op list \<Rightarrow> string set" where
  "touched ops = (\<Union>x\<in>set ops. op_keys x)"

definition recency_inv :: "('v \<Rightarrow> int64) \<Rightarrow> string \<Rightarrow> nat \<Rightarrow> string set \<Rightarrow> 'v Cache \<Rightarrow> bool" where
  "recency_inv Len K p T c \<longleftrightarrow>
     lru_inv Len c \<and>
     ((cache c K = Some p \<and>
       (\<forall>q\<in>set (takeWhile (\<lambda>q. q \<noteq> p) (ll c)). key (elems c ! q) \<in> T)) \<or>
      (\<forall>q\<in>set (ll c). key (elems c ! q) \<in> T))"

section \<open>Package consistenthash: the hash ring\<close>

text \<open>
  A \<open>Hash\<close> maps bytes to \<open>uint32\<close>; Go strings and byte slices are both \<open>string\<close> here.
  Go's \<open>int\<close> is taken to be 64 bits wide, so \<open>int(uint32)\<close> is the unsigned value.
  The default hash \<open>crc32.ChecksumIEEE\<close> belongs to the standard library and is a
  parameter of \<open>consistenthash_New\<close>.
\<close>

type_synonym Hash = "string \<Rightarrow> 32 word"

record ch_Map =
  hash :: Hash
  replicas :: int
  keys :: "int list"
  hashMap :: "int \<rightharpoonup> string"

definition consistenthash_New :: "Hash \<Rightarrow> int \<Rightarrow> Hash option \<Rightarrow> ch_Map" where
  "consistenthash_New ChecksumIEEE replicas' fn =
     \<lparr>hash = (case fn of None \<Rightarrow> ChecksumIEEE | Some f \<Rightarrow> f),
      replicas = replicas', keys = [], hashMap = Map.empty\<rparr>"

text \<open>\<open>strconv.Itoa\<close>: the decimal digits of an integer, with a sign when it is negative.\<close>

fun decimal :: "nat \<Rightarrow> string" where
  "decimal n =
     (if n < 10 then [char_of (48 + n)] else decimal (n div 10) @ [char_of (48 + n mod 10)])"

definition Itoa :: "int \<Rightarrow> string" where
  "Itoa i = (if i < 0 then CHR ''-'' # decimal (nat (- i)) else decimal (nat i))"

text \<open>
  \<open>Add\<close>: the body of the inner loop for replica index \<open>i\<close>, the inner loop for one
  node (it runs for \<open>i = 0, ..., replicas - 1\<close>, not at all when \<open>replicas\<close> is not
  positive), the outer loop over the nodes, and the final \<open>sort.Ints\<close>.
\<close>

definition Add_replica :: "string \<Rightarrow> ch_Map \<Rightarrow> nat \<Rightarrow> ch_Map" where
  "Add_replica node m i =
     (let h = int (unat (hash m (Itoa (int i) @ node)))
      in m\<lparr>hashMap := (hashMap m)(h \<mapsto> node), keys := keys m @ [h]\<rparr>)"

definition Add_node :: "ch_Map \<Rightarrow> string \<Rightarrow> ch_Map" where
  "Add_node m node = foldl (Add_replica node) m [0..<nat (replicas m)]"

definition Map_Add :: "ch_Map \<Rightarrow> string list \<Rightarrow> ch_Map" where
  "Map_Add m nodes = (let m' = foldl Add_node m nodes in m'\<lparr>keys := sort (keys m')\<rparr>)"

text \<open>
  \<open>sort.Search(n, f)\<close> of the standard library: binary search for the least index in
  \<open>[0, n)\<close> at which \<open>f\<close> holds, \<open>n\<close> when there is none.
\<close>

function Search_loop :: "(nat \<Rightarrow> bool) \<Rightarrow> nat \<Rightarrow> nat \<Rightarrow> nat" where
  "Search_loop f i j =
     (if i < j
      then (let h = (i + j) div 2
            in if \<not> f h then Search_loop f (h + 1) j else Search_loop f i h)
      else i)"
  by pat_completeness auto
termination
  by (relation "measure (\<lambda>(f, i, j). j - i)") auto

declare Search_loop.simps [simp del]

definition sort_Search :: "nat \<Rightarrow> (nat \<Rightarrow> bool) \<Rightarrow> nat" where
  "sort_Search n f = Search_loop f 0 n"

text \<open>\<open>Get\<close>; reading a key that a Go map does not hold gives the empty string.\<close>

definition Map_Get :: "ch_Map \<Rightarrow> string \<Rightarrow> string" where
  "Map_Get m k =
     (if length (keys m) = 0 then ''''
      else (let h = int (unat (hash m k));
                idx = sort_Search (length (keys m)) (\<lambda>i. keys m ! i \<ge> h)
            in case hashMap m (keys m ! (idx mod length (keys m))) of
                 None \<Rightarrow> ''''
               | Some node \<Rightarrow> node))"

text \<open>The ring after a sequence of \<open>Add\<close> calls on a new ring.\<close>

definition ring_of :: "Hash \<Rightarrow> int \<Rightarrow> Hash option \<Rightarrow> string list list \<Rightarrow> ch_Map" where
  "ring_of ChecksumIEEE r fn calls = foldl Map_Add (consistenthash_New ChecksumIEEE r fn) calls"

text \<open>
  Modelled from the spec: the test hash function of scenario 3, whose source (a test
  file) is missing from the sources.  It parses its input as a decimal integer and converts
  the result to \<open>uint32\<close>; an input that is not a digit sequence hashes to 0.
\<close>

definition digit_val :: "char \<Rightarrow> nat option" where
  "digit_val ch = (let n = (of_char ch :: nat) in if 48 \<le> n \<and> n \<le> 57 then Some (n - 48) else None)"

fun parse_digits :: "nat \<Rightarrow> string \<Rightarrow> nat option" where
  "parse_digits acc [] = Some acc"
| "parse_digits acc (ch # s) =
     (case digit_val ch of None \<Rightarrow> None | Some d \<Rightarrow> parse_digits (10 * acc + d) s)"

definition parse_hash :: Hash where
  "parse_hash s = (if s = [] then 0 else case parse_digits 0 s of None \<Rightarrow> 0 | Some n \<Rightarrow> of_nat n)"

text \<open>The hash of replica \<open>i\<close> of a node, as \<open>Add\<close> computes it.\<close>

definition vhash :: "Hash \<Rightarrow> string \<Rightarrow> nat \<Rightarrow> int" where
  "vhash hf node i = int (unat (hf (Itoa (int i) @ node)))"

text \<open>
  What a ring built from the nodes \<open>nodes\<close> (in the order of registration, with
  repetitions) satisfies: the sequence holds one hash per replica and registration, in
  some order, and the lookup map holds exactly these hashes, each owned by a registered
  node of which it is a replica hash.
\<close>

definition ring_inv :: "Hash \<Rightarrow> int \<Rightarrow> string list \<Rightarrow> ch_Map \<Rightarrow> bool" where
  "ring_inv hf r nodes m \<longleftrightarrow>
     hash m = hf \<and> replicas m = r \<and>
     mset (keys m) = mset (concat (map (\<lambda>node. map (vhash hf node) [0..<nat r]) nodes)) \<and>
     dom (hashMap m) = set (keys m) \<and>
     (\<forall>h node. hashMap m h = Some node \<longrightarrow> node \<in> set nodes \<and> (\<exists>i<nat r. vhash hf node i = h))"

text \<open>
  The owner the spec describes, in its words: the smallest virtual hash that is at least
  \<open>h\<close>, and the smallest virtual hash of all when \<open>h\<close> exceeds every one of them.
\<close>

definition ring_successor :: "int list \<Rightarrow> int \<Rightarrow> int" where
  "ring_successor ks h =
     (if \<exists>k\<in>set ks. h \<le> k then Min {k \<in> set ks. h \<le> k} else Min (set ks))"

text \<open>
  A stand-in for the default hash, for examples on rings that are given a hash function
  of their own and never call the default.
\<close>

definition unused_hash :: Hash where
  "unused_hash s = 0"

section \<open>Package geecache: ByteView, the locked store and Group\<close>

text \<open>
  A \<open>ByteView\<close> holds a byte slice; its \<open>Len\<close> is the \<open>Value\<close> method the store calls,
  and the store converts the result to \<open>int64\<close>.
  \<open>cloneBytes\<close> allocates a slice of the same length and copies into it; \<open>go_copy\<close> is
  Go's builtin \<open>copy\<close> on slice contents.
\<close>

type_synonym bytes = string

datatype ByteView = ByteView bytes

fun ByteView_Len :: "ByteView \<Rightarrow> int64" where
  "ByteView_Len (ByteView b) = of_nat (length b)"

definition go_copy :: "'a list \<Rightarrow> 'a list \<Rightarrow> 'a list" where
  "go_copy dst src = take (length dst) src @ drop (length src) dst"

definition cloneBytes :: "bytes \<Rightarrow> bytes" where
  "cloneBytes bs = go_copy (replicate (length bs) (CHR 0x00)) bs"

fun ByteSlice :: "ByteView \<Rightarrow> bytes" where
  "ByteSlice (ByteView b) = cloneBytes b"

fun ByteView_String :: "ByteView \<Rightarrow> string" where
  "ByteView_String (ByteView b) = b"

text \<open>
  The struct \<open>cache\<close> of geecache: the store, created on the first \<open>add\<close> (\<open>None\<close> is the
  nil pointer), and the capacity recorded for it.  The mutex is not modelled: every
  operation here runs alone.
\<close>

record locked_cache =
  lru :: "ByteView Cache option"
  cacheBytes :: int64

definition cache_add :: "locked_cache \<Rightarrow> string \<Rightarrow> ByteView \<Rightarrow> locked_cache option" where
  "cache_add c k v =
     (let l = (case lru c of None \<Rightarrow> lru_New (cacheBytes c) False | Some l \<Rightarrow> l)
      in case Cache_Add ByteView_Len l k v of
           None \<Rightarrow> None
         | Some l' \<Rightarrow> Some (c\<lparr>lru := Some l'\<rparr>))"

definition cache_get :: "locked_cache \<Rightarrow> string \<Rightarrow> ByteView option \<times> locked_cache" where
  "cache_get c k =
     (case lru c of
        None \<Rightarrow> (None, c)
      | Some l \<Rightarrow> (case Cache_Get l k of (v, l') \<Rightarrow> (v, c\<lparr>lru := Some l'\<rparr>)))"

text \<open>
  A Go \<open>error\<close> is its message.  The source loader (\<open>Getter\<close>), a peer handle
  (\<open>PeerGetter\<close>, called with the group name and the key) and the peer picker
  (\<open>PeerPicker\<close>, \<open>None\<close> when it reports no remote peer) are collaborators: functions that
  give the answer the collaborator gives.  The interfaces \<open>PeerPicker\<close> and \<open>PeerGetter\<close>
  are declared in a file that is not among the sources; their methods are read off the
  calls in \<open>load\<close> and \<open>getFromPeer\<close> and off \<open>HTTPPool.PickPeer\<close> and
  \<open>httpGetter.Get\<close>, which implement them.  The field \<open>peers\<close> of a group is \<open>None\<close>
  (nil) until a picker is registered.  The calls a \<open>Get\<close> makes to the loader and to a
  peer are returned as a list of events, in order.
\<close>

datatype error = Error string

type_synonym Getter = "string \<Rightarrow> error + bytes"
type_synonym PeerGetter = "string \<Rightarrow> string \<Rightarrow> error + bytes"
type_synonym PeerPicker = "string \<Rightarrow> PeerGetter option"

datatype event = LoaderCall string | PeerFetch string string

record Group =
  name :: string
  maincache :: locked_cache
  getter :: Getter
  peers :: "PeerPicker option"

text \<open>
  The registry \<open>groups\<close> is a parameter and a result of the functions that use it.
  \<open>NewGroup\<close> panics (\<open>Inl\<close>) on a nil getter.
\<close>

definition NewGroup ::
  "(string \<rightharpoonup> Group) \<Rightarrow> string \<Rightarrow> int64 \<Rightarrow> Getter option \<Rightarrow> string + Group \<times> (string \<rightharpoonup> Group)" where
  "NewGroup groups nm cacheBytes' gt =
     (case gt of
        None \<Rightarrow> Inl ''geecache: nil Getter''
      | Some g \<Rightarrow>
          (let newGroup = \<lparr>name = nm, maincache = \<lparr>lru = None, cacheBytes = cacheBytes'\<rparr>,
                           getter = g, peers = None\<rparr>
           in Inr (newGroup, groups(nm \<mapsto> newGroup))))"

definition GetGroup :: "(string \<rightharpoonup> Group) \<Rightarrow> string \<Rightarrow> Group option" where
  "GetGroup groups nm = groups nm"

definition populateCache :: "Group \<Rightarrow> string \<Rightarrow> ByteView \<Rightarrow> Group option" where
  "populateCache g k v =
     (case cache_add (maincache g) k v of
        None \<Rightarrow> None
      | Some c \<Rightarrow> Some (g\<lparr>maincache := c\<rparr>))"

definition getLocally :: "Group \<Rightarrow> string \<Rightarrow> ((error + ByteView) \<times> Group \<times> event list) option" where
  "getLocally g k =
     (case getter g k of
        Inl err \<Rightarrow> Some (Inl err, g, [LoaderCall k])
      | Inr bs \<Rightarrow>
          (let v = ByteView (cloneBytes bs)
           in case populateCache g k v of
                None \<Rightarrow> None
              | Some g' \<Rightarrow> Some (Inr v, g', [LoaderCall k])))"

definition getFromPeer :: "Group \<Rightarrow> PeerGetter \<Rightarrow> string \<Rightarrow> error + ByteView" where
  "getFromPeer g peer k =
     (case peer (name g) k of
        Inl err \<Rightarrow> Inl err
      | Inr bs \<Rightarrow> Inr (ByteView (cloneBytes bs)))"

definition after_fetch ::
  "event \<Rightarrow> ((error + ByteView) \<times> Group \<times> event list) option \<Rightarrow>
   ((error + ByteView) \<times> Group \<times> event list) option" where
  "after_fetch e r = (case r of None \<Rightarrow> None | Some (x, g, evs) \<Rightarrow> Some (x, g, e # evs))"

definition load :: "Group \<Rightarrow> string \<Rightarrow> ((error + ByteView) \<times> Group \<times> event list) option" where
  "load g k =
     (case peers g of
        None \<Rightarrow> getLocally g k
      | Some picker \<Rightarrow>
          (case picker k of
             None \<Rightarrow> getLocally g k
           | Some peerGetter \<Rightarrow>
               (case getFromPeer g peerGetter k of
                  Inr v \<Rightarrow> Some (Inr v, g, [PeerFetch (name g) k])
                | Inl err \<Rightarrow> after_fetch (PeerFetch (name g) k) (getLocally g k))))"

definition Group_Get :: "Group \<Rightarrow> string \<Rightarrow> ((error + ByteView) \<times> Group \<times> event list) option" where
  "Group_Get g k =
     (case cache_get (maincache g) k of
        (Some v, c) \<Rightarrow> Some (Inr v, g\<lparr>maincache := c\<rparr>, [])
      | (None, c) \<Rightarrow> load (g\<lparr>maincache := c\<rparr>) k)"

text \<open>
  A namespace in a state its operations can produce: the store, once created, satisfies
  the store invariant and has the recorded capacity.
\<close>

definition group_inv :: "Group \<Rightarrow> bool" where
  "group_inv g \<longleftrightarrow>
     (case lru (maincache g) of
        None \<Rightarrow> True
      | Some l \<Rightarrow> lru_inv ByteView_Len l \<and> maxBytes l = cacheBytes (maincache g))"

text \<open>What a picked remote peer answers for a key, \<open>None\<close> when no remote peer is picked.\<close>

definition peer_answer :: "Group \<Rightarrow> string \<Rightarrow> (error + ByteView) option" where
  "peer_answer g k =
     (case peers g of
        None \<Rightarrow> None
      | Some picker \<Rightarrow>
          (case picker k of None \<Rightarrow> None | Some peerGetter \<Rightarrow> Some (getFromPeer g peerGetter k)))"

text \<open>The entries a namespace holds in its store.\<close>

definition live_entries :: "Group \<Rightarrow> ByteView Entry set" where
  "live_entries g =
     (case lru (maincache g) of None \<Rightarrow> {} | Some l \<Rightarrow> (\<lambda>p. elems l ! p) ` set (ll l))"

fun is_LoaderCall :: "event \<Rightarrow> bool" where
  "is_LoaderCall (LoaderCall k) = True"
| "is_LoaderCall (PeerFetch grp k) = False"

text \<open>The database and the loader of \<open>main.go\<close>.\<close>

definition db :: "string \<rightharpoonup> string" where
  "db = [''Tom'' \<mapsto> ''630'', ''Jack'' \<mapsto> ''589'', ''Sam'' \<mapsto> ''567'']"

definition main_getter :: Getter where
  "main_getter k =
     (case db k of
        Some v \<Rightarrow> Inr v
      | None \<Rightarrow> Inl (Error (''key '' @ k @ '' not exist'')))"

text \<open>A peer that answers every fetch with the bytes "630", and a picker that always picks it.\<close>

definition answering_peer :: PeerGetter where
  "answering_peer grp k = Inr ''630''"

definition answering_picker :: PeerPicker where
  "answering_picker k = Some answering_peer"

section \<open>Package geecache: the HTTP pool\<close>

text \<open>
  \<open>strings.HasPrefix\<close>, \<open>strings.Index\<close> and \<open>strings.SplitN\<close> of the standard library,
  the last for a separator that is not empty and a count that is not negative, which is
  how \<open>ServeHTTP\<close> calls it.
\<close>

definition HasPrefix :: "string \<Rightarrow> string \<Rightarrow> bool" where
  "HasPrefix s pre = (take (length pre) s = pre)"

fun Index :: "string \<Rightarrow> string \<Rightarrow> nat option" where
  "Index [] sep = (if sep = [] then Some 0 else None)"
| "Index (ch # s) sep =
     (if take (length sep) (ch # s) = sep then Some 0 else map_option Suc (Index s sep))"

fun SplitN :: "string \<Rightarrow> string \<Rightarrow> nat \<Rightarrow> string list" where
  "SplitN s sep 0 = []"
| "SplitN s sep (Suc 0) = [s]"
| "SplitN s sep (Suc (Suc n)) =
     (case Index s sep of
        None \<Rightarrow> [s]
      | Some m \<Rightarrow> take m s # SplitN (drop (m + length sep) s) sep (Suc n))"

text \<open>
  What the handler leaves in the \<open>ResponseWriter\<close>: status, headers and body.
  \<open>http.Error\<close> sets a plain-text content type, writes the status and the message
  followed by a newline; a \<open>Write\<close> with no status written before sends 200.
\<close>

record response =
  status :: int
  header :: "string \<rightharpoonup> string"
  body :: bytes

definition http_Error :: "string \<Rightarrow> int \<Rightarrow> response" where
  "http_Error msg code =
     \<lparr>status = code,
      header = [''Content-Type'' \<mapsto> ''text/plain; charset=utf-8'',
                ''X-Content-Type-Options'' \<mapsto> ''nosniff''],
      body = msg @ [CHR 0x0A]\<rparr>"

fun error_Error :: "error \<Rightarrow> string" where
  "error_Error (Error msg) = msg"

text \<open>
  The client side, \<open>httpGetter.Get\<close>.  The network is a collaborator: \<open>http_Get\<close> gives,
  for a URL, a network error or the status code of the response together with the result
  of reading its body; \<open>url.QueryEscape\<close> of the standard library is a parameter too.
\<close>

type_synonym http_reply = "int \<times> (error + bytes)"

definition httpGetter_Get ::
  "(string \<Rightarrow> string) \<Rightarrow> (string \<Rightarrow> error + http_reply) \<Rightarrow> string \<Rightarrow> PeerGetter" where
  "httpGetter_Get QueryEscape http_Get baseURL grp k =
     (let newUrl = baseURL @ QueryEscape grp @ ''/'' @ QueryEscape k
      in case http_Get newUrl of
           Inl err \<Rightarrow> Inl err
         | Inr (code, rd) \<Rightarrow>
             if code \<noteq> 200 then Inl (Error (''server returned:'' @ Itoa code))
             else (case rd of
                     Inl err \<Rightarrow> Inl (Error (''reading response body:'' @ error_Error err))
                   | Inr bs \<Rightarrow> Inr bs))"

text \<open>
  The pool: its own address, the path prefix, the ring (\<open>None\<close> until \<open>Set\<close>), and the
  client handle of every peer, which is its base URL.
\<close>

record HTTPPool =
  self :: string
  basePath :: string
  pool_peers :: "ch_Map option"
  httpGetters :: "string \<rightharpoonup> string"

definition defaultBasePath :: string where
  "defaultBasePath = ''/_geecache/''"

definition defaultReplicas :: int where
  "defaultReplicas = 50"

definition NewHTTPPool :: "string \<Rightarrow> HTTPPool" where
  "NewHTTPPool self' =
     \<lparr>self = self', basePath = defaultBasePath, pool_peers = None, httpGetters = Map.empty\<rparr>"

definition HTTPPool_Set :: "Hash \<Rightarrow> HTTPPool \<Rightarrow> string list \<Rightarrow> HTTPPool" where
  "HTTPPool_Set ChecksumIEEE h ps =
     h\<lparr>pool_peers := Some (Map_Add (consistenthash_New ChecksumIEEE defaultReplicas None) ps),
       httpGetters := foldl (\<lambda>m peer. m(peer \<mapsto> peer @ basePath h)) Map.empty ps\<rparr>"

definition PickPeer :: "HTTPPool \<Rightarrow> string \<Rightarrow> string option \<times> bool" where
  "PickPeer h k =
     (case pool_peers h of
        None \<Rightarrow> (None, False)
      | Some ring \<Rightarrow>
          (let peer = Map_Get ring k
           in if peer \<noteq> '''' \<and> peer \<noteq> self h then (httpGetters h peer, True)
              else (None, False)))"

text \<open>
  \<open>ServeHTTP\<close> on a request path, with the registry of groups.  The result is \<open>None\<close>
  when the handler does not return, \<open>Inl\<close> when it panics, and otherwise the response
  together with the registry, in which the group that served the request has its new state.
\<close>

definition ServeHTTP ::
  "HTTPPool \<Rightarrow> (string \<rightharpoonup> Group) \<Rightarrow> string \<Rightarrow> (string + response \<times> (string \<rightharpoonup> Group)) option" where
  "ServeHTTP h groups path =
     (if \<not> HasPrefix path (basePath h)
      then Some (Inl (''HTTPPool serving unexpected path: '' @ path))
      else
        (let parts = SplitN (drop (length (basePath h)) path) ''/'' 2
         in if length parts \<noteq> 2 then Some (Inr (http_Error ''bad request'' 400, groups))
            else
              (let groupName = parts ! 0;
                   k = parts ! 1
               in case GetGroup groups groupName of
                    None \<Rightarrow> Some (Inr (http_Error (''no such group: '' @ groupName) 404, groups))
                  | Some grp \<Rightarrow>
                      (case Group_Get grp k of
                         None \<Rightarrow> None
                       | Some (Inl err, grp', evs) \<Rightarrow>
                           Some (Inr (http_Error (error_Error err) 500, groups(groupName \<mapsto> grp')))
                       | Some (Inr view, grp', evs) \<Rightarrow>
                           Some (Inr (\<lparr>status = 200,
                                       header = [''Content-Type'' \<mapsto> ''application/octet-stream''],
                                       body = ByteSlice view\<rparr>,
                                      groups(groupName \<mapsto> grp')))))))"

text \<open>
  The segments of a path remainder, in the spec's sense: the pieces between the slashes.
\<close>

definition path_segments :: "string \<Rightarrow> string list" where
  "path_segments s = SplitN s ''/'' (Suc (length s))"

section \<open>The store: invariant and eviction loop\<close>

lemma remove1_last: "distinct l \<Longrightarrow> l \<noteq> [] \<Longrightarrow> remove1 (last l) l = butlast l"
proof (induction l)
  case Nil
  then show ?case by simp
next
  case (Cons a l)
  then show ?case by (cases l) auto
qed

lemma sum_remove1:
  fixes f :: "nat \<Rightarrow> 'b::ab_group_add"
  shows "p \<in> set l \<Longrightarrow> (\<Sum>x\<leftarrow>l. f x) = f p + (\<Sum>x\<leftarrow>remove1 p l. f x)"
  by (induction l) auto

lemma inv_New: "lru_inv Len (lru_New m cb)"
  by (simp add: lru_inv_def lru_New_def live_bytes_def)

lemma inv_Get: "lru_inv Len c \<Longrightarrow> lru_inv Len (snd (Cache_Get c k))"
proof (cases "cache c k")
  case None
  assume "lru_inv Len c"
  then show ?thesis using None by (simp add: Cache_Get_def)
next
  case (Some p)
  assume inv: "lru_inv Len c"
  then have pin: "p \<in> set (ll c)" using Some by (auto simp: lru_inv_def)
  have s: "snd (Cache_Get c k) = c\<lparr>ll := p # remove1 p (ll c)\<rparr>"
    using Some pin by (simp add: Cache_Get_def MoveToFront_def)
  show ?thesis using inv pin sum_remove1[OF pin, of "\<lambda>p. cost Len (elems c ! p)"]
    unfolding s by (auto simp: lru_inv_def live_bytes_def)
qed

lemma RemoveOldest_nil: "ll c = [] \<Longrightarrow> Cache_RemoveOldest Len c = c"
  by (simp add: Cache_RemoveOldest_def Back_def)

lemma RemoveOldest_fields:
  assumes "ll c \<noteq> []" "distinct (ll c)"
  shows "ll (Cache_RemoveOldest Len c) = butlast (ll c)"
    and "nBytes (Cache_RemoveOldest Len c) = nBytes c - cost Len (elems c ! last (ll c))"
    and "cache (Cache_RemoveOldest Len c) = (cache c)(key (elems c ! last (ll c)) := None)"
    and "elems (Cache_RemoveOldest Len c) = elems c"
    and "maxBytes (Cache_RemoveOldest Len c) = maxBytes c"
    and "OnEvicted (Cache_RemoveOldest Len c) = OnEvicted c"
  using assms
  by (simp_all add: Cache_RemoveOldest_def Back_def Remove_def deallocate_def Let_def cost_def remove1_last)

lemma sum_butlast:
  fixes f :: "nat \<Rightarrow> 'b::ab_group_add"
  shows "l \<noteq> [] \<Longrightarrow> (\<Sum>x\<leftarrow>butlast l. f x) = (\<Sum>x\<leftarrow>l. f x) - f (last l)"
  by (induction l) auto

lemma inv_RemoveOldest: "lru_inv Len c \<Longrightarrow> lru_inv Len (Cache_RemoveOldest Len c)"
proof (cases "ll c = []")
  case True
  assume "lru_inv Len c"
  then show ?thesis using True by (simp add: RemoveOldest_nil)
next
  case False
  assume inv: "lru_inv Len c"
  then have d: "distinct (ll c)" by (simp add: lru_inv_def)
  note f = RemoveOldest_fields[OF False d, of Len]
  have ll: "ll c = butlast (ll c) @ [last (ll c)]" using False by simp
  have notin: "last (ll c) \<notin> set (butlast (ll c))"
    using d ll by (metis distinct_append disjoint_iff list.set_intros(1))
  have sub: "\<And>p. p \<in> set (butlast (ll c)) \<Longrightarrow> p \<in> set (ll c)"
    by (rule in_set_butlastD)
  have lastin: "last (ll c) \<in> set (ll c)" using False by simp
  show ?thesis
    unfolding lru_inv_def f live_bytes_def
  proof (intro conjI ballI allI impI)
    show "distinct (butlast (ll c))" using d by (rule distinct_butlast)
  next
    fix p assume p: "p \<in> set (butlast (ll c))"
    with inv sub show "p < length (elems c)" by (auto simp: lru_inv_def)
    have "p \<noteq> last (ll c)" using p notin by auto
    moreover have "cache c (key (elems c ! p)) = Some p" using inv sub[OF p] by (auto simp: lru_inv_def)
    moreover have "cache c (key (elems c ! last (ll c))) = Some (last (ll c))" using inv lastin by (auto simp: lru_inv_def)
    ultimately show "((cache c)(key (elems c ! last (ll c)) := None)) (key (elems c ! p)) = Some p"
      by auto
  next
    fix k p assume a: "((cache c)(key (elems c ! last (ll c)) := None)) k = Some p"
    then have k: "k \<noteq> key (elems c ! last (ll c))" and cp: "cache c k = Some p"
      by (auto split: if_splits)
    from inv cp have pin: "p \<in> set (ll c)" and kp: "key (elems c ! p) = k" by (auto simp: lru_inv_def)
    from kp k have "p \<noteq> last (ll c)" by auto
    with pin ll show "p \<in> set (butlast (ll c))"
      by (metis Un_iff empty_iff empty_set set_ConsD set_append)
    show "key (elems c ! p) = k" by (rule kp)
  next
    show "nBytes c - cost Len (elems c ! last (ll c)) = (\<Sum>p\<leftarrow>butlast (ll c). cost Len (elems c ! p))"
      using inv False by (simp add: sum_butlast lru_inv_def live_bytes_def)
  qed
qed


lemma upsert_hit:
  assumes "cache c k = Some p"
  shows "Add_upsert Len c k v =
     c\<lparr>nBytes := nBytes c - cost Len (elems c ! p) + cost Len ((elems c ! p)\<lparr>val := v\<rparr>),
       elems := (elems c)[p := (elems c ! p)\<lparr>val := v\<rparr>],
       ll := MoveToFront p (ll c)\<rparr>"
  using assms by (simp add: Add_upsert_def Let_def allocate_def deallocate_def cost_def)

lemma upsert_miss:
  assumes "cache c k = None"
  shows "Add_upsert Len c k v =
     c\<lparr>nBytes := nBytes c + cost Len \<lparr>key = k, val = v\<rparr>,
       elems := elems c @ [\<lparr>key = k, val = v\<rparr>],
       ll := length (elems c) # ll c,
       cache := (cache c)(k \<mapsto> length (elems c))\<rparr>"
  using assms by (simp add: Add_upsert_def Let_def allocate_def PushFront_def cost_def)

lemma sum_cong_upd:
  fixes g :: "'a \<Rightarrow> 'b::ab_group_add"
  shows "p \<notin> set l \<Longrightarrow> (\<Sum>q\<leftarrow>l. g (xs[p := e] ! q)) = (\<Sum>q\<leftarrow>l. g (xs ! q))"
  by (induction l) auto

lemma sum_cong_app:
  fixes g :: "'a \<Rightarrow> 'b::ab_group_add"
  shows "\<forall>q\<in>set l. q < length xs \<Longrightarrow> (\<Sum>q\<leftarrow>l. g ((xs @ ys) ! q)) = (\<Sum>q\<leftarrow>l. g (xs ! q))"
  by (induction l) (auto simp: nth_append)

lemma inv_upsert: "lru_inv Len c \<Longrightarrow> lru_inv Len (Add_upsert Len c k v)"
proof (cases "cache c k")
  case None
  assume inv: "lru_inv Len c"
  let ?n = "length (elems c)"
  let ?e = "\<lparr>key = k, val = v\<rparr>"
  have lt: "\<forall>q\<in>set (ll c). q < ?n" using inv by (simp add: lru_inv_def)
  have fresh: "?n \<notin> set (ll c)" using lt by auto
  have d: "distinct (ll c)" using inv by (simp add: lru_inv_def)
  have fwd: "\<And>p. p \<in> set (ll c) \<Longrightarrow> cache c (key (elems c ! p)) = Some p"
    using inv by (simp add: lru_inv_def)
  have bwd: "\<And>k' p. cache c k' = Some p \<Longrightarrow> p \<in> set (ll c) \<and> key (elems c ! p) = k'"
    using inv by (simp add: lru_inv_def)
  have kfresh: "\<And>p. p \<in> set (ll c) \<Longrightarrow> key (elems c ! p) \<noteq> k"
    using fwd None by fastforce
  have nb: "nBytes c = (\<Sum>q\<leftarrow>ll c. cost Len (elems c ! q))"
    using inv by (simp add: lru_inv_def live_bytes_def)
  have c1: "distinct (?n # ll c)" using d fresh by simp
  have c2: "\<forall>p\<in>set (?n # ll c). p < length (elems c @ [?e]) \<and>
       ((cache c)(k \<mapsto> ?n)) (key ((elems c @ [?e]) ! p)) = Some p"
  proof
    fix p assume "p \<in> set (?n # ll c)"
    then consider "p = ?n" | "p \<in> set (ll c)" by auto
    then show "p < length (elems c @ [?e]) \<and>
       ((cache c)(k \<mapsto> ?n)) (key ((elems c @ [?e]) ! p)) = Some p"
    proof cases
      case 1
      then show ?thesis by simp
    next
      case 2
      then have "p < ?n" using lt by simp
      then show ?thesis using fwd[OF 2] kfresh[OF 2] by (simp add: nth_append)
    qed
  qed
  have c3: "\<forall>k' p. ((cache c)(k \<mapsto> ?n)) k' = Some p \<longrightarrow>
       p \<in> set (?n # ll c) \<and> key ((elems c @ [?e]) ! p) = k'"
  proof (intro allI impI)
    fix k' p assume a: "((cache c)(k \<mapsto> ?n)) k' = Some p"
    show "p \<in> set (?n # ll c) \<and> key ((elems c @ [?e]) ! p) = k'"
    proof (cases "k' = k")
      case True
      then have "p = ?n" using a by simp
      then show ?thesis using True by simp
    next
      case False
      then have "cache c k' = Some p" using a by simp
      from bwd[OF this] lt show ?thesis by (simp add: nth_append)
    qed
  qed
  have c4: "nBytes c + cost Len ?e = (\<Sum>q\<leftarrow>?n # ll c. cost Len ((elems c @ [?e]) ! q))"
    using nb sum_cong_app[OF lt, of "cost Len" "[?e]"] by simp
  show ?thesis
    unfolding upsert_miss[OF None] lru_inv_def live_bytes_def
    using c1 c2 c3 c4 by simp
next
  case (Some p)
  assume inv: "lru_inv Len c"
  let ?e = "(elems c ! p)\<lparr>val := v\<rparr>"
  let ?es = "(elems c)[p := ?e]"
  have lt: "\<forall>q\<in>set (ll c). q < length (elems c)" using inv by (simp add: lru_inv_def)
  have d: "distinct (ll c)" using inv by (simp add: lru_inv_def)
  have fwd: "\<And>q. q \<in> set (ll c) \<Longrightarrow> cache c (key (elems c ! q)) = Some q"
    using inv by (simp add: lru_inv_def)
  have bwd: "\<And>k' q. cache c k' = Some q \<Longrightarrow> q \<in> set (ll c) \<and> key (elems c ! q) = k'"
    using inv by (simp add: lru_inv_def)
  have pin: "p \<in> set (ll c)" and kp: "key (elems c ! p) = k" using bwd[OF Some] by simp_all
  have plt: "p < length (elems c)" using lt pin by simp
  have keys: "\<And>q. q < length (elems c) \<Longrightarrow> key (?es ! q) = key (elems c ! q)"
    using plt by (simp add: nth_list_update)
  have notin: "p \<notin> set (remove1 p (ll c))" using d by simp
  have seteq: "set (p # remove1 p (ll c)) = set (ll c)" using pin d by auto
  have nb: "nBytes c = cost Len (elems c ! p) + (\<Sum>q\<leftarrow>remove1 p (ll c). cost Len (elems c ! q))"
    using inv sum_remove1[OF pin, of "\<lambda>q. cost Len (elems c ! q)"] by (simp add: lru_inv_def live_bytes_def)
  have c1: "distinct (p # remove1 p (ll c))" using d by simp
  have c2: "\<forall>q\<in>set (p # remove1 p (ll c)). q < length ?es \<and> cache c (key (?es ! q)) = Some q"
    unfolding seteq using lt fwd keys by simp
  have c3: "\<forall>k' q. cache c k' = Some q \<longrightarrow> q \<in> set (p # remove1 p (ll c)) \<and> key (?es ! q) = k'"
    unfolding seteq using bwd lt keys by simp
  have c4: "nBytes c - cost Len (elems c ! p) + cost Len ?e = (\<Sum>q\<leftarrow>p # remove1 p (ll c). cost Len (?es ! q))"
    using nb sum_cong_upd[OF notin, of "cost Len" "elems c" ?e] plt by simp
  show ?thesis
    unfolding upsert_hit[OF Some] lru_inv_def live_bytes_def MoveToFront_def
    using c1 c2 c3 c4 pin Some kp plt by simp
qed

lemma evict_total:
  "lru_inv Len c \<Longrightarrow> 0 <=s maxBytes c \<Longrightarrow>
   \<exists>c'. Add_evict Len c = Some c' \<and> lru_inv Len c' \<and> maxBytes c' = maxBytes c \<and>
        (maxBytes c = 0 \<or> nBytes c' <=s maxBytes c)"
proof (induction "length (ll c)" arbitrary: c)
  case 0
  then have "ll c = []" by simp
  then have "nBytes c = 0" using 0 by (simp add: lru_inv_def live_bytes_def)
  then show ?case using 0 by (subst Add_evict.simps) (auto simp: word_sle_eq word_sless_alt)
next
  case (Suc n)
  show ?case
  proof (cases "maxBytes c \<noteq> 0 \<and> maxBytes c <s nBytes c")
    case False
    then show ?thesis using Suc.prems
      by (subst Add_evict.simps) (auto simp: word_sle_eq word_sless_alt)
  next
    case True
    have ne: "ll c \<noteq> []" using Suc.hyps(2) by auto
    have d: "distinct (ll c)" using Suc.prems by (simp add: lru_inv_def)
    note f = RemoveOldest_fields[OF ne d, of Len]
    have "n = length (ll (Cache_RemoveOldest Len c))" using Suc.hyps(2) by (simp add: f)
    from Suc.hyps(1)[OF this inv_RemoveOldest[OF Suc.prems(1)]] Suc.prems(2)
    obtain c' where "Add_evict Len (Cache_RemoveOldest Len c) = Some c'" "lru_inv Len c'"
      "maxBytes c' = maxBytes c" "maxBytes c = 0 \<or> nBytes c' <=s maxBytes c"
      by (auto simp: f)
    then show ?thesis using True by (subst Add_evict.simps) auto
  qed
qed


lemma RemoveOldest_maxBytes: "maxBytes (Cache_RemoveOldest Len c) = maxBytes c"
  by (simp add: Cache_RemoveOldest_def Back_def deallocate_def Let_def split: option.splits)


lemma evict_inv:
  assumes "Add_evict Len c = Some c'"
  shows "lru_inv Len c \<longrightarrow> lru_inv Len c' \<and> maxBytes c' = maxBytes c"
proof (rule Add_evict.raw_induct[where P = "\<lambda>L c c'. lru_inv L c \<longrightarrow> lru_inv L c' \<and> maxBytes c' = maxBytes c"])
  fix f :: "('a \<Rightarrow> int64) \<Rightarrow> 'a Cache \<Rightarrow> 'a Cache option" and L c y
  assume IH: "\<And>c b y. f c b = Some y \<Longrightarrow> lru_inv c b \<longrightarrow> lru_inv c y \<and> maxBytes y = maxBytes b"
    and eq: "(if maxBytes c \<noteq> 0 \<and> maxBytes c <s nBytes c then f L (Cache_RemoveOldest L c) else Some c) = Some y"
  show "lru_inv L c \<longrightarrow> lru_inv L y \<and> maxBytes y = maxBytes c"
  proof (cases "maxBytes c \<noteq> 0 \<and> maxBytes c <s nBytes c")
    case True
    then have "f L (Cache_RemoveOldest L c) = Some y" using eq by simp
    from IH[OF this] show ?thesis
      by (simp add: inv_RemoveOldest RemoveOldest_maxBytes)
  next
    case False
    then show ?thesis using eq by auto
  qed
next
  show "Add_evict Len c = Some c'" by (rule assms)
qed

lemma upsert_maxBytes: "maxBytes (Add_upsert Len c k v) = maxBytes c"
  by (cases "cache c k") (simp_all add: upsert_hit upsert_miss)

lemma Get_maxBytes: "maxBytes (snd (Cache_Get c k)) = maxBytes c"
  by (simp add: Cache_Get_def split: option.splits)

lemma step_inv:
  "lru_step Len c x = Some c' \<Longrightarrow> lru_inv Len c \<Longrightarrow> lru_inv Len c' \<and> maxBytes c' = maxBytes c"
proof (cases x)
  case (OpAdd k v)
  assume a: "lru_step Len c x = Some c'" and inv: "lru_inv Len c"
  then have "Add_evict Len (Add_upsert Len c k v) = Some c'" using OpAdd by (simp add: Cache_Add_def)
  from evict_inv[OF this] inv_upsert[OF inv, of k v] show ?thesis by (simp add: upsert_maxBytes)
next
  case (OpGet k)
  assume "lru_step Len c x = Some c'" "lru_inv Len c"
  then show ?thesis using OpGet inv_Get[of Len c k] by (auto simp: Get_maxBytes)
next
  case OpRemoveOldest
  assume "lru_step Len c x = Some c'" "lru_inv Len c"
  then show ?thesis using OpRemoveOldest inv_RemoveOldest[of Len c] by (auto simp: RemoveOldest_maxBytes)
qed

lemma run_inv:
  "lru_run Len c ops = Some c' \<Longrightarrow> lru_inv Len c \<Longrightarrow> lru_inv Len c' \<and> maxBytes c' = maxBytes c"
proof (induction ops arbitrary: c)
  case Nil
  then show ?case by simp
next
  case (Cons x xs)
  then obtain c1 where s: "lru_step Len c x = Some c1" and r: "lru_run Len c1 xs = Some c'"
    by (auto split: option.splits)
  from step_inv[OF s Cons.prems(2)] Cons.IH[OF r] show ?case by simp
qed

lemma step_total:
  "lru_inv Len c \<Longrightarrow> 0 <=s maxBytes c \<Longrightarrow> \<exists>c'. lru_step Len c x = Some c'"
proof (cases x)
  case (OpAdd k v)
  assume "lru_inv Len c" "0 <=s maxBytes c"
  then show ?thesis
    using OpAdd evict_total[OF inv_upsert, of Len c k v] by (auto simp: Cache_Add_def upsert_maxBytes)
qed simp_all

lemma run_total:
  "lru_inv Len c \<Longrightarrow> 0 <=s maxBytes c \<Longrightarrow> \<exists>c'. lru_run Len c ops = Some c'"
proof (induction ops arbitrary: c)
  case Nil
  then show ?case by simp
next
  case (Cons x xs)
  from step_total[OF Cons.prems] obtain c1 where s: "lru_step Len c x = Some c1" by blast
  from step_inv[OF s Cons.prems(1)] Cons.prems(2) have "lru_inv Len c1" "0 <=s maxBytes c1" by simp_all
  from Cons.IH[OF this] s show ?case by simp
qed

lemma New_fields:
  "maxBytes (lru_New M cb) = M" "nBytes (lru_New M cb) = 0" "ll (lru_New M cb) = []"
  "cache (lru_New M cb) = Map.empty" "elems (lru_New M cb) = []" "OnEvicted (lru_New M cb) = cb"
  by (simp_all add: lru_New_def)

lemma reach_inv:
  "lru_run Len (lru_New M cb) ops = Some c \<Longrightarrow> lru_inv Len c \<and> maxBytes c = M"
  using run_inv[OF _ inv_New, of Len M cb ops c] by (simp add: New_fields)








subsection \<open>The byte counter and the sum over the live entries\<close>

lemma inv_keys_distinct:
  assumes "lru_inv Len c"
  shows "distinct (map (\<lambda>p. key (elems c ! p)) (ll c))"
proof -
  have d: "distinct (ll c)" using assms by (simp add: lru_inv_def)
  have "inj_on (\<lambda>p. key (elems c ! p)) (set (ll c))"
  proof (rule inj_onI)
    fix x y assume "x \<in> set (ll c)" "y \<in> set (ll c)" "key (elems c ! x) = key (elems c ! y)"
    then show "x = y" using assms by (metis lru_inv_def option.inject)
  qed
  then show ?thesis using d by (simp add: distinct_map)
qed

lemma inv_dom:
  assumes "lru_inv Len c"
  shows "dom (cache c) = set (map (\<lambda>p. key (elems c ! p)) (ll c))"
proof (rule set_eqI)
  fix k
  show "k \<in> dom (cache c) \<longleftrightarrow> k \<in> set (map (\<lambda>p. key (elems c ! p)) (ll c))"
  proof
    assume "k \<in> dom (cache c)"
    then obtain p where "cache c k = Some p" by auto
    then have "p \<in> set (ll c)" "key (elems c ! p) = k" using assms by (auto simp: lru_inv_def)
    then show "k \<in> set (map (\<lambda>p. key (elems c ! p)) (ll c))" by auto
  next
    assume "k \<in> set (map (\<lambda>p. key (elems c ! p)) (ll c))"
    then obtain p where "p \<in> set (ll c)" "k = key (elems c ! p)" by auto
    then have "cache c k = Some p" using assms by (auto simp: lru_inv_def)
    then show "k \<in> dom (cache c)" by auto
  qed
qed

text \<open>
  The \<open>int64\<close> quantities are the integer ones reduced modulo \<open>2 ^ 64\<close>, and read back
  as the same integer when that integer is in the range of \<open>int64\<close>.
\<close>

lemma sint_of_int_range:
  "- (2 ^ 63) \<le> x \<Longrightarrow> x < 2 ^ 63 \<Longrightarrow> sint (of_int x :: int64) = x"
  by (simp add: sint_sbintrunc' signed_take_bit_int_eq_self)

lemma cost_of_int: "cost Len e = of_int (int_cost Len e)"
  by (simp add: cost_def int_cost_def)

lemma sum_cost_of_int:
  "(\<Sum>p\<leftarrow>l. cost Len (xs ! p)) = of_int (\<Sum>p\<leftarrow>l. int_cost Len (xs ! p))"
  by (induction l) (simp_all add: cost_of_int)

lemma live_bytes_of_int: "live_bytes Len c = of_int (int_bytes Len c)"
  by (simp add: live_bytes_def int_bytes_def sum_cost_of_int)

lemma inv_sint_nBytes:
  assumes "lru_inv Len c" "- (2 ^ 63) \<le> int_bytes Len c" "int_bytes Len c < 2 ^ 63"
  shows "sint (nBytes c) = int_bytes Len c"
  using assms by (simp add: lru_inv_def live_bytes_of_int sint_of_int_range)

text \<open>
  C2 (byte accounting), as stated, fails when the sum of key length plus value length over
  the live entries leaves the range of \<open>int64\<close>: the byte counter wraps around.  On a store without a capacity limit, \<open>Add\<close> of the key \<open>a\<close> with a
  value whose \<open>Len\<close> is \<open>2 ^ 63 - 1\<close> returns with one live entry, whose key length plus
  value length is \<open>2 ^ 63\<close>, and with the byte counter \<open>- 2 ^ 63\<close>.
\<close>

theorem C2_byte_accounting_counterexample:
  "lru_run declared_Len (lru_New 0 False) [OpAdd ''a'' 0x7FFFFFFFFFFFFFFF] =
     Some \<lparr>maxBytes = 0, nBytes = 0x8000000000000000, ll = [0], cache = [''a'' \<mapsto> 0],
           OnEvicted = False, elems = [\<lparr>key = ''a'', val = 0x7FFFFFFFFFFFFFFF\<rparr>], evicted = []\<rparr> \<and>
   sint (0x8000000000000000 :: int64) = - 9223372036854775808 \<and>
   int_bytes declared_Len
     \<lparr>maxBytes = 0, nBytes = 0x8000000000000000, ll = [0], cache = [''a'' \<mapsto> 0],
      OnEvicted = False, elems = [\<lparr>key = ''a'', val = 0x7FFFFFFFFFFFFFFF\<rparr>], evicted = []\<rparr>
     = 9223372036854775808"
proof (intro conjI)
  show "lru_run declared_Len (lru_New 0 False) [OpAdd ''a'' 0x7FFFFFFFFFFFFFFF] =
     Some \<lparr>maxBytes = 0, nBytes = 0x8000000000000000, ll = [0], cache = [''a'' \<mapsto> 0],
           OnEvicted = False, elems = [\<lparr>key = ''a'', val = 0x7FFFFFFFFFFFFFFF\<rparr>], evicted = []\<rparr>"
    by (simp add: Cache_Add_def Add_upsert_def lru_New_def PushFront_def allocate_def
          Add_evict.simps declared_Len_def)
  show "sint (0x8000000000000000 :: int64) = - 9223372036854775808" by simp
  show "int_bytes declared_Len
     \<lparr>maxBytes = 0, nBytes = 0x8000000000000000, ll = [0], cache = [''a'' \<mapsto> 0],
      OnEvicted = False, elems = [\<lparr>key = ''a'', val = 0x7FFFFFFFFFFFFFFF\<rparr>], evicted = []\<rparr>
     = 9223372036854775808"
    by (simp add: int_bytes_def int_cost_def declared_Len_def)
qed

text \<open>
  C2 (byte accounting), amended.  In every state reached from a new store by \<open>Add\<close>, \<open>Get\<close>
  and \<open>RemoveOldest\<close> calls, the byte counter is the sum of key length plus value length
  over the entries of the recency list in the wrap-around arithmetic of \<open>int64\<close>, and it is
  that sum exactly whenever the sum is in the range of \<open>int64\<close>.  The entries of the recency
  list are exactly the entries of the lookup map, one per key.  In the same arithmetic,
  replacing the value of an existing key changes the counter by the new value length minus
  the old one, inserting a new key adds key length plus value length, and \<open>RemoveOldest\<close>
  subtracts the key length plus value length of the entry it removes.  With a capacity
  that is not negative every such sequence of calls returns.
\<close>

theorem C2_byte_accounting:
  "(0 <=s M \<longrightarrow> lru_run Len (lru_New M cb) ops \<noteq> None) \<and>
   (\<forall>c. lru_run Len (lru_New M cb) ops = Some c \<longrightarrow>
      nBytes c =
        of_int (\<Sum>p\<leftarrow>ll c. int (length (key (elems c ! p))) + sint (Len (val (elems c ! p)))) \<and>
      (- (2 ^ 63) \<le> int_bytes Len c \<and> int_bytes Len c < 2 ^ 63 \<longrightarrow>
         sint (nBytes c) =
           (\<Sum>p\<leftarrow>ll c. int (length (key (elems c ! p))) + sint (Len (val (elems c ! p))))) \<and>
      distinct (map (\<lambda>p. key (elems c ! p)) (ll c)) \<and>
      dom (cache c) = set (map (\<lambda>p. key (elems c ! p)) (ll c)) \<and>
      (\<forall>k p v. cache c k = Some p \<longrightarrow>
         nBytes (Add_upsert Len c k v) = nBytes c + (Len v - Len (val (elems c ! p)))) \<and>
      (\<forall>k v. cache c k = None \<longrightarrow>
         nBytes (Add_upsert Len c k v) = nBytes c + (of_nat (length k) + Len v)) \<and>
      (ll c \<noteq> [] \<longrightarrow>
         nBytes (Cache_RemoveOldest Len c) =
           nBytes c - (of_nat (length (key (elems c ! last (ll c)))) + Len (val (elems c ! last (ll c))))))"
proof (intro conjI allI impI)
  assume "0 <=s M"
  then show "lru_run Len (lru_New M cb) ops \<noteq> None"
    using run_total[OF inv_New, of M cb Len ops] by (auto simp: New_fields)
next
  fix c assume r: "lru_run Len (lru_New M cb) ops = Some c"
  from reach_inv[OF r] have inv: "lru_inv Len c" by simp
  have ib: "int_bytes Len c =
      (\<Sum>p\<leftarrow>ll c. int (length (key (elems c ! p))) + sint (Len (val (elems c ! p))))"
    by (simp add: int_bytes_def int_cost_def)
  have "nBytes c = of_int (int_bytes Len c)"
    using inv by (simp add: lru_inv_def live_bytes_of_int)
  then show "nBytes c =
      of_int (\<Sum>p\<leftarrow>ll c. int (length (key (elems c ! p))) + sint (Len (val (elems c ! p))))"
    by (simp only: ib)
  {
    assume "- (2 ^ 63) \<le> int_bytes Len c \<and> int_bytes Len c < 2 ^ 63"
    then have "sint (nBytes c) = int_bytes Len c" using inv by (simp add: inv_sint_nBytes)
    then show "sint (nBytes c) =
        (\<Sum>p\<leftarrow>ll c. int (length (key (elems c ! p))) + sint (Len (val (elems c ! p))))"
      by (simp only: ib)
  }
  show "distinct (map (\<lambda>p. key (elems c ! p)) (ll c))" by (rule inv_keys_distinct[OF inv])
  show "dom (cache c) = set (map (\<lambda>p. key (elems c ! p)) (ll c))" by (rule inv_dom[OF inv])
  {
    fix k p v assume "cache c k = Some p"
    then show "nBytes (Add_upsert Len c k v) = nBytes c + (Len v - Len (val (elems c ! p)))"
      by (simp add: upsert_hit cost_def)
  }
  {
    fix k v assume "cache c k = None"
    then show "nBytes (Add_upsert Len c k v) = nBytes c + (of_nat (length k) + Len v)"
      by (simp add: upsert_miss cost_def)
  }
  {
    assume ne: "ll c \<noteq> []"
    have d: "distinct (ll c)" using inv by (simp add: lru_inv_def)
    show "nBytes (Cache_RemoveOldest Len c) =
           nBytes c - (of_nat (length (key (elems c ! last (ll c)))) + Len (val (elems c ! last (ll c))))"
      by (simp add: RemoveOldest_fields[OF ne d] cost_def)
  }
qed

lemma scenario_add_get_add_remove:
  "lru_run string_Len (lru_New 20 False)
     [OpAdd ''k1'' ''12345'', OpGet ''k1'', OpAdd ''k2'' ''67890'', OpRemoveOldest] =
   Some \<lparr>maxBytes = 20, nBytes = 7, ll = [1], cache = [''k2'' \<mapsto> 1],
         OnEvicted = False,
         elems = [\<lparr>key = ''k1'', val = ''12345''\<rparr>, \<lparr>key = ''k2'', val = ''67890''\<rparr>],
         evicted = []\<rparr>"
  by (simp add: Cache_Add_def Add_upsert_def lru_New_def PushFront_def allocate_def deallocate_def
        Add_evict.simps Let_def string_Len_def word_sless_alt Cache_Get_def MoveToFront_def
        Cache_RemoveOldest_def Back_def Remove_def fun_upd_twist)

theorem C2_byte_accounting_witness:
  "(0::int64) <=s 20 \<and>
   lru_run string_Len (lru_New 20 False)
     [OpAdd ''k1'' ''12345'', OpGet ''k1'', OpAdd ''k2'' ''67890'', OpRemoveOldest] \<noteq> None \<and>
   int_bytes string_Len
     \<lparr>maxBytes = 20, nBytes = 7, ll = [1], cache = [''k2'' \<mapsto> 1], OnEvicted = False,
      elems = [\<lparr>key = ''k1'', val = ''12345''\<rparr>, \<lparr>key = ''k2'', val = ''67890''\<rparr>],
      evicted = []\<rparr> = 7 \<and>
   sint (nBytes
     \<lparr>maxBytes = 20, nBytes = 7, ll = [1], cache = [''k2'' \<mapsto> 1], OnEvicted = False,
      elems = [\<lparr>key = ''k1'', val = ''12345''\<rparr>, \<lparr>key = ''k2'', val = ''67890''\<rparr>],
      evicted = []\<rparr>) =
     (\<Sum>p\<leftarrow>[1]. int (length (key ([\<lparr>key = ''k1'', val = ''12345''\<rparr>, \<lparr>key = ''k2'', val = ''67890''\<rparr>] ! p))) +
         sint (string_Len (val ([\<lparr>key = ''k1'', val = ''12345''\<rparr>, \<lparr>key = ''k2'', val = ''67890''\<rparr>] ! p))))"
proof -
  let ?ops = "[OpAdd ''k1'' ''12345'', OpGet ''k1'', OpAdd ''k2'' ''67890'', OpRemoveOldest]"
  let ?c = "\<lparr>maxBytes = 20, nBytes = 7, ll = [1], cache = [''k2'' \<mapsto> (1::nat)], OnEvicted = False,
      elems = [\<lparr>key = ''k1'', val = ''12345''\<rparr>, \<lparr>key = ''k2'', val = ''67890''\<rparr>],
      evicted = []\<rparr>"
  note t = C2_byte_accounting[of 20 string_Len False ?ops]
  have m: "(0::int64) <=s 20" by (simp add: word_sle_eq)
  from t m have a: "lru_run string_Len (lru_New 20 False) ?ops \<noteq> None" by blast
  have ib: "int_bytes string_Len ?c = 7" by (simp add: int_bytes_def int_cost_def string_Len_def)
  from t[THEN conjunct2, rule_format, OF scenario_add_get_add_remove]
  have "- (2 ^ 63) \<le> int_bytes string_Len ?c \<and> int_bytes string_Len ?c < 2 ^ 63 \<longrightarrow>
         sint (nBytes ?c) =
           (\<Sum>p\<leftarrow>ll ?c. int (length (key (elems ?c ! p))) + sint (string_Len (val (elems ?c ! p))))"
    by (rule conjunct2[THEN conjunct1])
  then have b: "sint (nBytes ?c) =
           (\<Sum>p\<leftarrow>ll ?c. int (length (key (elems ?c ! p))) + sint (string_Len (val (elems ?c ! p))))"
    using ib by simp
  show ?thesis using m a ib b by simp
qed

subsection \<open>An entry larger than the capacity\<close>


lemma upsert_front:
  assumes inv: "lru_inv Len c"
  shows "\<exists>p rest. ll (Add_upsert Len c k v) = p # rest \<and>
           elems (Add_upsert Len c k v) ! p = \<lparr>key = k, val = v\<rparr> \<and>
           set rest \<subseteq> set (ll c) \<and> p \<notin> set rest \<and>
           (\<forall>q\<in>set rest. elems (Add_upsert Len c k v) ! q = elems c ! q)"
proof (cases "cache c k")
  case None
  have lt: "\<forall>q\<in>set (ll c). q < length (elems c)" using inv by (simp add: lru_inv_def)
  then have "length (elems c) \<notin> set (ll c)" by auto
  then show ?thesis unfolding upsert_miss[OF None] using lt by (simp add: nth_append)
next
  case (Some p)
  have lt: "\<forall>q\<in>set (ll c). q < length (elems c)" using inv by (simp add: lru_inv_def)
  have pin: "p \<in> set (ll c)" and kp: "key (elems c ! p) = k"
    using inv Some by (auto simp: lru_inv_def)
  have d: "distinct (ll c)" using inv by (simp add: lru_inv_def)
  have e: "(elems c ! p)\<lparr>val := v\<rparr> = \<lparr>key = k, val = v\<rparr>" using kp by simp
  have sub: "set (remove1 p (ll c)) \<subseteq> set (ll c)" by (rule set_remove1_subset)
  have notin: "p \<notin> set (remove1 p (ll c))" using d by simp
  show ?thesis unfolding upsert_hit[OF Some] MoveToFront_def
    using pin lt e sub notin by (auto simp: nth_list_update)
qed

lemma inv_empty:
  assumes "lru_inv Len c" "ll c = []"
  shows "nBytes c = 0" "cache c = Map.empty"
proof -
  show "nBytes c = 0" using assms by (simp add: lru_inv_def live_bytes_def)
  show "cache c = Map.empty"
  proof (rule ext)
    fix k show "cache c k = None" using assms by (cases "cache c k") (auto simp: lru_inv_def)
  qed
qed

lemma int_cost_nonneg: "0 <=s Len (val e) \<Longrightarrow> 0 \<le> int_cost Len e"
  by (simp add: int_cost_def word_sle_eq)

lemma upsert_int_bytes:
  assumes inv: "lru_inv Len c"
    and nonneg: "\<forall>p\<in>set (ll c). 0 <=s Len (val (elems c ! p))"
  shows "int_bytes Len (Add_upsert Len c k v) \<le> int_bytes Len c + (int (length k) + sint (Len v))"
proof (cases "cache c k")
  case None
  have lt: "\<forall>q\<in>set (ll c). q < length (elems c)" using inv by (simp add: lru_inv_def)
  show ?thesis unfolding upsert_miss[OF None] int_bytes_def
    using sum_cong_app[OF lt, of "int_cost Len" "[\<lparr>key = k, val = v\<rparr>]"]
    by (simp add: int_cost_def)
next
  case (Some p)
  have pin: "p \<in> set (ll c)" and kp: "key (elems c ! p) = k"
    using inv Some by (auto simp: lru_inv_def)
  have plt: "p < length (elems c)" using inv pin by (simp add: lru_inv_def)
  have d: "distinct (ll c)" using inv by (simp add: lru_inv_def)
  have notin: "p \<notin> set (remove1 p (ll c))" using d by simp
  have old: "0 \<le> int_cost Len (elems c ! p)" using nonneg pin by (simp add: int_cost_nonneg)
  have s: "(\<Sum>q\<leftarrow>ll c. int_cost Len (elems c ! q)) =
           int_cost Len (elems c ! p) + (\<Sum>q\<leftarrow>remove1 p (ll c). int_cost Len (elems c ! q))"
    by (rule sum_remove1[OF pin])
  show ?thesis unfolding upsert_hit[OF Some] int_bytes_def MoveToFront_def
    using pin plt old s kp
      sum_cong_upd[OF notin, of "int_cost Len" "elems c" "(elems c ! p)\<lparr>val := v\<rparr>"]
    by (simp add: int_cost_def)
qed

lemma evict_empties:
  "lru_inv Len c \<Longrightarrow> ll c = p # rest \<Longrightarrow> 0 <s maxBytes c \<Longrightarrow>
   \<forall>q\<in>set (ll c). 0 \<le> int_cost Len (elems c ! q) \<Longrightarrow> int_bytes Len c < 2 ^ 63 \<Longrightarrow>
   sint (maxBytes c) < int_cost Len (elems c ! p) \<Longrightarrow>
   Add_evict Len c = Some ((Cache_RemoveOldest Len ^^ length (ll c)) c) \<and>
   lru_inv Len ((Cache_RemoveOldest Len ^^ length (ll c)) c) \<and>
   ll ((Cache_RemoveOldest Len ^^ length (ll c)) c) = []"
proof (induction "length rest" arbitrary: c rest)
  case 0
  then have l: "ll c = [p]" by simp
  let ?r = "Cache_RemoveOldest Len c"
  have ib: "int_bytes Len c = int_cost Len (elems c ! p)" using l by (simp add: int_bytes_def)
  have "- (2 ^ 63) \<le> int_bytes Len c" using ib 0(5) l by simp
  from inv_sint_nBytes[OF 0(2) this 0(6)] have nb: "sint (nBytes c) = int_cost Len (elems c ! p)"
    using ib by simp
  have ne: "ll c \<noteq> []" using l by simp
  have d: "distinct (ll c)" using l by simp
  have lr: "ll ?r = []" using l by (simp add: RemoveOldest_fields[OF ne d])
  have ir: "lru_inv Len ?r" by (rule inv_RemoveOldest[OF 0(2)])
  then have "nBytes ?r = 0" using lr by (simp add: lru_inv_def live_bytes_def)
  then have "Add_evict Len ?r = Some ?r" using 0(4)
    by (subst Add_evict.simps) (simp add: RemoveOldest_maxBytes word_sless_alt)
  moreover have "Add_evict Len c = Add_evict Len ?r" using nb 0(4,7)
    by (subst Add_evict.simps) (auto simp: word_sless_alt)
  ultimately show ?case using ir lr l by simp
next
  case (Suc n)
  let ?r = "Cache_RemoveOldest Len c"
  have ne: "ll c \<noteq> []" using Suc.prems(2) by simp
  have rne: "rest \<noteq> []" using Suc.hyps(2) by auto
  have d: "distinct (ll c)" using Suc.prems(1) by (simp add: lru_inv_def)
  note f = RemoveOldest_fields[OF ne d, of Len]
  have nnrest: "\<forall>q\<in>set rest. 0 \<le> int_cost Len (elems c ! q)" using Suc.prems(2,4) by simp
  have sumrest: "0 \<le> (\<Sum>q\<leftarrow>rest. int_cost Len (elems c ! q))"
    using nnrest by (intro sum_list_nonneg) auto
  have ib: "int_bytes Len c = int_cost Len (elems c ! p) + (\<Sum>q\<leftarrow>rest. int_cost Len (elems c ! q))"
    using Suc.prems(2) by (simp add: int_bytes_def)
  have p0: "0 \<le> int_cost Len (elems c ! p)" using Suc.prems(2,4) by simp
  have "- (2 ^ 63) \<le> int_bytes Len c" using ib sumrest p0 by simp
  from inv_sint_nBytes[OF Suc.prems(1) this Suc.prems(5)]
  have nb: "sint (nBytes c) = int_bytes Len c" .
  have step: "Add_evict Len c = Add_evict Len ?r" using nb ib sumrest Suc.prems(3,6)
    by (subst Add_evict.simps) (auto simp: word_sless_alt)
  have lr: "ll ?r = p # butlast rest" using Suc.prems(2) rne by (simp add: f)
  have len: "n = length (butlast rest)" using Suc.hyps(2) by simp
  have nn: "\<forall>q\<in>set (ll ?r). 0 \<le> int_cost Len (elems ?r ! q)"
    using Suc.prems(4) by (auto simp: f dest: in_set_butlastD)
  have lastnn: "0 \<le> int_cost Len (elems c ! last (ll c))" using Suc.prems(4) ne by simp
  have "int_bytes Len ?r = int_bytes Len c - int_cost Len (elems c ! last (ll c))"
    using sum_butlast[OF ne, of "\<lambda>q. int_cost Len (elems c ! q)"] by (simp add: int_bytes_def f)
  then have small: "int_bytes Len ?r < 2 ^ 63" using lastnn Suc.prems(5) by simp
  have mb: "0 <s maxBytes ?r" using Suc.prems(3) by (simp add: f)
  have big: "sint (maxBytes ?r) < int_cost Len (elems ?r ! p)" using Suc.prems(6) by (simp add: f)
  from Suc.hyps(1)[OF len inv_RemoveOldest[OF Suc.prems(1)] lr mb nn small big]
  have "Add_evict Len ?r = Some ((Cache_RemoveOldest Len ^^ length (ll ?r)) ?r) \<and>
        lru_inv Len ((Cache_RemoveOldest Len ^^ length (ll ?r)) ?r) \<and>
        ll ((Cache_RemoveOldest Len ^^ length (ll ?r)) ?r) = []" .
  moreover have "length (ll c) = Suc (length (ll ?r))" using ne by (simp add: f)
  ultimately show ?case using step by (simp add: funpow_swap1)
qed

text \<open>
  C10 (oversized entry), as stated, fails in two ways, both on a new store of capacity
  10, where an entry whose key length plus value length exceeds 10 is added and the store
  is not left empty.  After \<open>Add\<close> of the key \<open>b\<close> with a value of length 4, \<open>Add\<close> of the
  key \<open>a\<close> with a value whose \<open>Len\<close> is \<open>2 ^ 63 - 6\<close> makes the byte counter wrap around to
  \<open>- 2 ^ 63\<close>, which is not greater than 10: nothing is evicted and both entries stay.
  And after \<open>Add\<close> of the key \<open>a\<close> with a value whose \<open>Len\<close> is \<open>- 100\<close>, \<open>Add\<close> of the key
  \<open>key\<close> with a value of length 12 leaves the byte counter at \<open>- 84\<close>: again both entries
  stay.
\<close>

theorem C10_oversized_add_counterexample:
  "lru_run declared_Len (lru_New 10 False) [OpAdd ''b'' 4, OpAdd ''a'' 0x7FFFFFFFFFFFFFFA] =
     Some \<lparr>maxBytes = 10, nBytes = 0x8000000000000000, ll = [1, 0],
           cache = [''b'' \<mapsto> 0, ''a'' \<mapsto> 1], OnEvicted = False,
           elems = [\<lparr>key = ''b'', val = 4\<rparr>, \<lparr>key = ''a'', val = 0x7FFFFFFFFFFFFFFA\<rparr>],
           evicted = []\<rparr> \<and>
   sint (10 :: int64) < int (length ''a'') + sint (declared_Len 0x7FFFFFFFFFFFFFFA) \<and>
   (10 :: int64) <s of_nat (length ''a'') + declared_Len 0x7FFFFFFFFFFFFFFA \<and>
   lru_run declared_Len (lru_New 10 False) [OpAdd ''a'' (- 100), OpAdd ''key'' 12] =
     Some \<lparr>maxBytes = 10, nBytes = - 84, ll = [1, 0],
           cache = [''a'' \<mapsto> 0, ''key'' \<mapsto> 1], OnEvicted = False,
           elems = [\<lparr>key = ''a'', val = - 100\<rparr>, \<lparr>key = ''key'', val = 12\<rparr>],
           evicted = []\<rparr> \<and>
   sint (10 :: int64) < int (length ''key'') + sint (declared_Len 12) \<and>
   (10 :: int64) <s of_nat (length ''key'') + declared_Len 12"
proof (intro conjI)
  show "lru_run declared_Len (lru_New 10 False) [OpAdd ''b'' 4, OpAdd ''a'' 0x7FFFFFFFFFFFFFFA] =
     Some \<lparr>maxBytes = 10, nBytes = 0x8000000000000000, ll = [1, 0],
           cache = [''b'' \<mapsto> 0, ''a'' \<mapsto> 1], OnEvicted = False,
           elems = [\<lparr>key = ''b'', val = 4\<rparr>, \<lparr>key = ''a'', val = 0x7FFFFFFFFFFFFFFA\<rparr>],
           evicted = []\<rparr>"
    by (simp add: Cache_Add_def Add_upsert_def lru_New_def PushFront_def allocate_def
          Add_evict.simps declared_Len_def word_sless_alt)
  show "lru_run declared_Len (lru_New 10 False) [OpAdd ''a'' (- 100), OpAdd ''key'' 12] =
     Some \<lparr>maxBytes = 10, nBytes = - 84, ll = [1, 0],
           cache = [''a'' \<mapsto> 0, ''key'' \<mapsto> 1], OnEvicted = False,
           elems = [\<lparr>key = ''a'', val = - 100\<rparr>, \<lparr>key = ''key'', val = 12\<rparr>],
           evicted = []\<rparr>"
    by (simp add: Cache_Add_def Add_upsert_def lru_New_def PushFront_def allocate_def
          Add_evict.simps declared_Len_def word_sless_alt)
  show "sint (10 :: int64) < int (length ''a'') + sint (declared_Len 0x7FFFFFFFFFFFFFFA)"
    by (simp add: declared_Len_def)
  show "(10 :: int64) <s of_nat (length ''a'') + declared_Len 0x7FFFFFFFFFFFFFFA"
    by (simp add: declared_Len_def word_sless_alt)
  show "sint (10 :: int64) < int (length ''key'') + sint (declared_Len 12)"
    by (simp add: declared_Len_def)
  show "(10 :: int64) <s of_nat (length ''key'') + declared_Len 12"
    by (simp add: declared_Len_def word_sless_alt)
qed

text \<open>
  C10 (oversized entry), amended.  Every store reached from a new one by \<open>Add\<close>, \<open>Get\<close>
  and \<open>RemoveOldest\<close> calls satisfies the representation invariant and keeps its capacity.
  Take a store that satisfies the representation invariant and has a positive capacity \<open>M\<close>,
  whose live values and the new value report lengths that are not negative, and such that
  the bytes of the live entries plus the key length plus the value length of the new
  entry stay below \<open>2 ^ 63\<close>.  Then \<open>Add\<close> of an entry whose key length plus value length
  exceeds \<open>M\<close> returns.  It puts the new entry at the front of the recency list, and then
  calls \<open>RemoveOldest\<close> once for every entry of the list, the new one included.  The store
  is left empty: no entries, zero bytes, and \<open>Get\<close> of the key just added reports absence.
\<close>

theorem C10_oversized_add:
  "(lru_run Len (lru_New M cb) ops = Some c0 \<longrightarrow> lru_inv Len c0 \<and> maxBytes c0 = M) \<and>
   (lru_inv Len c \<and> 0 <s maxBytes c \<and>
    (\<forall>p\<in>set (ll c). 0 <=s Len (val (elems c ! p))) \<and> 0 <=s Len v \<and>
    int_bytes Len c + (int (length k) + sint (Len v)) < 2 ^ 63 \<and>
    sint (maxBytes c) < int (length k) + sint (Len v) \<longrightarrow>
    (\<exists>c'. Cache_Add Len c k v = Some c' \<and>
          c' = (Cache_RemoveOldest Len ^^ length (ll (Add_upsert Len c k v))) (Add_upsert Len c k v) \<and>
          elems (Add_upsert Len c k v) ! hd (ll (Add_upsert Len c k v)) = \<lparr>key = k, val = v\<rparr> \<and>
          Cache_Len c' = 0 \<and> nBytes c' = 0 \<and> ll c' = [] \<and> cache c' = Map.empty \<and>
          Cache_Get c' k = (None, c')))"
proof (rule conjI[OF impI impI])
  assume "lru_run Len (lru_New M cb) ops = Some c0"
  then show "lru_inv Len c0 \<and> maxBytes c0 = M" by (rule reach_inv)
next
  assume a: "lru_inv Len c \<and> 0 <s maxBytes c \<and>
    (\<forall>p\<in>set (ll c). 0 <=s Len (val (elems c ! p))) \<and> 0 <=s Len v \<and>
    int_bytes Len c + (int (length k) + sint (Len v)) < 2 ^ 63 \<and>
    sint (maxBytes c) < int (length k) + sint (Len v)"
  then have inv: "lru_inv Len c" and M: "0 <s maxBytes c"
    and nonneg: "\<forall>p\<in>set (ll c). 0 <=s Len (val (elems c ! p))" "0 <=s Len v"
    and fits: "int_bytes Len c + (int (length k) + sint (Len v)) < 2 ^ 63"
    and big: "sint (maxBytes c) < int (length k) + sint (Len v)"
    by simp_all
  let ?u = "Add_upsert Len c k v"
  from upsert_front[OF inv, of k v] obtain p rest where
    l: "ll ?u = p # rest" and e: "elems ?u ! p = \<lparr>key = k, val = v\<rparr>"
    and sub: "set rest \<subseteq> set (ll c)" and same: "\<forall>q\<in>set rest. elems ?u ! q = elems c ! q"
    by blast
  have iu: "lru_inv Len ?u" by (rule inv_upsert[OF inv])
  have mu: "0 <s maxBytes ?u" using M by (simp add: upsert_maxBytes)
  have nn: "\<forall>q\<in>set (ll ?u). 0 \<le> int_cost Len (elems ?u ! q)"
  proof
    fix q assume "q \<in> set (ll ?u)"
    then consider "q = p" | "q \<in> set rest" using l by auto
    then show "0 \<le> int_cost Len (elems ?u ! q)"
    proof cases
      case 1
      then show ?thesis using e nonneg(2) by (simp add: int_cost_nonneg)
    next
      case 2
      then have "q \<in> set (ll c)" "elems ?u ! q = elems c ! q" using sub same by auto
      then show ?thesis using nonneg(1) by (simp add: int_cost_nonneg)
    qed
  qed
  have small: "int_bytes Len ?u < 2 ^ 63"
    using upsert_int_bytes[OF inv nonneg(1), of k v] fits by simp
  have bg: "sint (maxBytes ?u) < int_cost Len (elems ?u ! p)"
    using big e by (simp add: upsert_maxBytes int_cost_def)
  let ?c' = "(Cache_RemoveOldest Len ^^ length (ll ?u)) ?u"
  from evict_empties[OF iu l mu nn small bg]
  have ev: "Add_evict Len ?u = Some ?c'" and i: "lru_inv Len ?c'" and n: "ll ?c' = []"
    by simp_all
  from inv_empty[OF i n] have z: "nBytes ?c' = 0" and ce: "cache ?c' = Map.empty" by simp_all
  have h: "elems ?u ! hd (ll ?u) = \<lparr>key = k, val = v\<rparr>" using l e by simp
  show "\<exists>c'. Cache_Add Len c k v = Some c' \<and>
          c' = (Cache_RemoveOldest Len ^^ length (ll (Add_upsert Len c k v))) (Add_upsert Len c k v) \<and>
          elems (Add_upsert Len c k v) ! hd (ll (Add_upsert Len c k v)) = \<lparr>key = k, val = v\<rparr> \<and>
          Cache_Len c' = 0 \<and> nBytes c' = 0 \<and> ll c' = [] \<and> cache c' = Map.empty \<and>
          Cache_Get c' k = (None, c')"
    using ev n z ce h by (simp add: Cache_Add_def Cache_Len_def Cache_Get_def)
qed

lemma scenario_capacity_10:
  "lru_run string_Len (lru_New 10 False) [OpAdd ''a'' ''1'', OpAdd ''b'' ''22''] =
   Some \<lparr>maxBytes = 10, nBytes = 5, ll = [1, 0], cache = [''a'' \<mapsto> 0, ''b'' \<mapsto> 1],
         OnEvicted = False,
         elems = [\<lparr>key = ''a'', val = ''1''\<rparr>, \<lparr>key = ''b'', val = ''22''\<rparr>],
         evicted = []\<rparr>"
  by (simp add: Cache_Add_def Add_upsert_def lru_New_def PushFront_def allocate_def Add_evict.simps
        Let_def string_Len_def word_sless_alt)

theorem C10_oversized_add_witness:
  "lru_run string_Len (lru_New 10 False) [OpAdd ''a'' ''1'', OpAdd ''b'' ''22''] =
     Some \<lparr>maxBytes = 10, nBytes = 5, ll = [1, 0], cache = [''a'' \<mapsto> 0, ''b'' \<mapsto> 1],
           OnEvicted = False,
           elems = [\<lparr>key = ''a'', val = ''1''\<rparr>, \<lparr>key = ''b'', val = ''22''\<rparr>],
           evicted = []\<rparr> \<and>
   (0 :: int64) <s 10 \<and>
   sint (10 :: int64) < int (length ''key'') + sint (string_Len ''12345678'') \<and>
   (\<exists>c'. Cache_Add string_Len
            \<lparr>maxBytes = 10, nBytes = 5, ll = [1, 0], cache = [''a'' \<mapsto> 0, ''b'' \<mapsto> 1],
             OnEvicted = False,
             elems = [\<lparr>key = ''a'', val = ''1''\<rparr>, \<lparr>key = ''b'', val = ''22''\<rparr>],
             evicted = []\<rparr> ''key'' ''12345678'' = Some c' \<and>
          Cache_Len c' = 0 \<and> nBytes c' = 0 \<and> ll c' = [] \<and> Cache_Get c' ''key'' = (None, c'))"
proof -
  let ?c = "\<lparr>maxBytes = 10, nBytes = 5, ll = [1, 0], cache = [''a'' \<mapsto> 0, ''b'' \<mapsto> (1::nat)],
           OnEvicted = False,
           elems = [\<lparr>key = ''a'', val = ''1''\<rparr>, \<lparr>key = ''b'', val = ''22''\<rparr>],
           evicted = []\<rparr>"
  note t = C10_oversized_add[where Len = string_Len and c = ?c and k = "''key''"
      and v = "''12345678''" and M = 10 and cb = False
      and ops = "[OpAdd ''a'' ''1'', OpAdd ''b'' ''22'']" and ?c0.0 = ?c]
  from t scenario_capacity_10 have inv: "lru_inv string_Len ?c" by blast
  have M: "0 <s maxBytes ?c" by (simp add: word_sless_alt)
  have n1: "\<forall>p\<in>set (ll ?c). 0 <=s string_Len (val (elems ?c ! p))"
    by (simp add: string_Len_def word_sle_eq)
  have n2: "0 <=s string_Len ''12345678''" by (simp add: string_Len_def word_sle_eq)
  have fits: "int_bytes string_Len ?c + (int (length ''key'') + sint (string_Len ''12345678'')) < 2 ^ 63"
    by (simp add: int_bytes_def int_cost_def string_Len_def)
  have big: "sint (maxBytes ?c) < int (length ''key'') + sint (string_Len ''12345678'')"
    by (simp add: string_Len_def)
  from t[THEN conjunct2] inv M n1 n2 fits big
  obtain c' where "Cache_Add string_Len ?c ''key'' ''12345678'' = Some c'"
    "Cache_Len c' = 0" "nBytes c' = 0" "ll c' = []" "Cache_Get c' ''key'' = (None, c')"
    by blast
  then show ?thesis using scenario_capacity_10 M big by auto
qed

lemma recency_mono: "recency_inv Len K p T c \<Longrightarrow> T \<subseteq> T' \<Longrightarrow> recency_inv Len K p T' c"
  unfolding recency_inv_def by blast

lemma takeWhile_last:
  "distinct l \<Longrightarrow> l \<noteq> [] \<Longrightarrow> takeWhile (\<lambda>q. q \<noteq> last l) l = butlast l"
proof (induction l)
  case Nil
  then show ?case by simp
next
  case (Cons a l)
  then show ?case by (cases l) auto
qed

lemma takeWhile_butlast:
  assumes "p \<in> set l" "p \<noteq> last l"
  shows "takeWhile (\<lambda>q. q \<noteq> p) (butlast l) = takeWhile (\<lambda>q. q \<noteq> p) l"
proof -
  have ne: "l \<noteq> []" using assms by auto
  then have l: "l = butlast l @ [last l]" by simp
  have "p \<in> set (butlast l)" using assms l by (metis Un_iff empty_iff empty_set set_ConsD set_append)
  then have "takeWhile (\<lambda>q. q \<noteq> p) (butlast l @ [last l]) = takeWhile (\<lambda>q. q \<noteq> p) (butlast l)"
    by (intro takeWhile_append1[of p]) simp_all
  then show ?thesis using l by simp
qed

lemma takeWhile_remove1:
  "P q \<Longrightarrow> set (takeWhile P (remove1 q l)) \<subseteq> set (takeWhile P l)"
  by (induction l) auto

lemma recency_RemoveOldest:
  assumes r: "recency_inv Len K p T c"
  shows "recency_inv Len K p T (Cache_RemoveOldest Len c)"
proof (cases "ll c = []")
  case True
  then show ?thesis using r by (simp add: RemoveOldest_nil)
next
  case False
  from r have inv: "lru_inv Len c" by (simp add: recency_inv_def)
  then have d: "distinct (ll c)" by (simp add: lru_inv_def)
  note f = RemoveOldest_fields[OF False d, of Len]
  have inv': "lru_inv Len (Cache_RemoveOldest Len c)" by (rule inv_RemoveOldest[OF inv])
  have lastin: "last (ll c) \<in> set (ll c)" using False by simp
  from r consider
    (a) "cache c K = Some p" "\<forall>q\<in>set (takeWhile (\<lambda>q. q \<noteq> p) (ll c)). key (elems c ! q) \<in> T"
    | (b) "\<forall>q\<in>set (ll c). key (elems c ! q) \<in> T"
    unfolding recency_inv_def by blast
  then show ?thesis
  proof cases
    case a
    have pin: "p \<in> set (ll c)" and kp: "key (elems c ! p) = K" using inv a(1) by (auto simp: lru_inv_def)
    show ?thesis
    proof (cases "last (ll c) = p")
      case True
      have "\<forall>q\<in>set (butlast (ll c)). key (elems c ! q) \<in> T"
        using a(2) takeWhile_last[OF d False] True by simp
      then show ?thesis unfolding recency_inv_def using inv' by (simp add: f)
    next
      case ne: False
      have "cache c (key (elems c ! last (ll c))) = Some (last (ll c))"
        using inv lastin by (simp add: lru_inv_def)
      then have "key (elems c ! last (ll c)) \<noteq> K" using a(1) ne by auto
      then have c': "cache (Cache_RemoveOldest Len c) K = Some p" using a(1) by (simp add: f)
      have "takeWhile (\<lambda>q. q \<noteq> p) (butlast (ll c)) = takeWhile (\<lambda>q. q \<noteq> p) (ll c)"
        using takeWhile_butlast[OF pin] ne by simp
      then show ?thesis unfolding recency_inv_def using inv' c' a(2) by (simp add: f)
    qed
  next
    case b
    have "\<forall>q\<in>set (butlast (ll c)). key (elems c ! q) \<in> T"
      using b by (auto dest: in_set_butlastD)
    then show ?thesis unfolding recency_inv_def using inv' by (simp add: f)
  qed
qed

lemma recency_Get:
  assumes r: "recency_inv Len K p T c" and k: "k \<noteq> K" and t: "k \<in> T"
  shows "recency_inv Len K p T (snd (Cache_Get c k))"
proof (cases "cache c k")
  case None
  then show ?thesis using r by (simp add: Cache_Get_def)
next
  case (Some q)
  from r have inv: "lru_inv Len c" by (simp add: recency_inv_def)
  have qin: "q \<in> set (ll c)" and kq: "key (elems c ! q) = k" using inv Some by (auto simp: lru_inv_def)
  have s: "snd (Cache_Get c k) = c\<lparr>ll := q # remove1 q (ll c)\<rparr>"
    using Some qin by (simp add: Cache_Get_def MoveToFront_def)
  have inv': "lru_inv Len (c\<lparr>ll := q # remove1 q (ll c)\<rparr>)"
    using inv_Get[OF inv, of k] s by simp
  from r consider
    (a) "cache c K = Some p" "\<forall>x\<in>set (takeWhile (\<lambda>x. x \<noteq> p) (ll c)). key (elems c ! x) \<in> T"
    | (b) "\<forall>x\<in>set (ll c). key (elems c ! x) \<in> T"
    unfolding recency_inv_def by blast
  then show ?thesis
  proof cases
    case a
    have "key (elems c ! p) = K" using inv a(1) by (auto simp: lru_inv_def)
    then have qp: "q \<noteq> p" using kq k by auto
    have "\<forall>x\<in>set (takeWhile (\<lambda>x. x \<noteq> p) (remove1 q (ll c))). key (elems c ! x) \<in> T"
      using a(2) takeWhile_remove1[of "\<lambda>x. x \<noteq> p" q "ll c"] qp by blast
    then show ?thesis unfolding s recency_inv_def using inv' a(1) qp kq t by simp
  next
    case b
    have "\<forall>x\<in>set (q # remove1 q (ll c)). key (elems c ! x) \<in> T"
      using b qin by (auto dest: notin_set_remove1)
    then show ?thesis unfolding s recency_inv_def using inv' by simp
  qed
qed

lemma recency_upsert:
  assumes r: "recency_inv Len K p T c" and k: "k \<noteq> K" and t: "k \<in> T"
  shows "recency_inv Len K p T (Add_upsert Len c k v)"
proof (cases "cache c k")
  case None
  from r have inv: "lru_inv Len c" by (simp add: recency_inv_def)
  let ?n = "length (elems c)"
  let ?e = "\<lparr>key = k, val = v\<rparr>"
  have lt: "\<forall>q\<in>set (ll c). q < ?n" using inv by (simp add: lru_inv_def)
  have inv': "lru_inv Len (Add_upsert Len c k v)" by (rule inv_upsert[OF inv])
  have keys: "\<And>x. x \<in> set (ll c) \<Longrightarrow> key ((elems c @ [?e]) ! x) = key (elems c ! x)"
    using lt by (simp add: nth_append)
  from r consider
    (a) "cache c K = Some p" "\<forall>x\<in>set (takeWhile (\<lambda>x. x \<noteq> p) (ll c)). key (elems c ! x) \<in> T"
    | (b) "\<forall>x\<in>set (ll c). key (elems c ! x) \<in> T"
    unfolding recency_inv_def by blast
  then show ?thesis
  proof cases
    case a
    have pin: "p \<in> set (ll c)" using inv a(1) by (auto simp: lru_inv_def)
    then have np: "?n \<noteq> p" using lt by auto
    have "\<forall>x\<in>set (takeWhile (\<lambda>x. x \<noteq> p) (ll c)). key ((elems c @ [?e]) ! x) \<in> T"
    proof
      fix x assume x: "x \<in> set (takeWhile (\<lambda>x. x \<noteq> p) (ll c))"
      then have "x \<in> set (ll c)" by (rule set_takeWhileD[THEN conjunct1])
      then show "key ((elems c @ [?e]) ! x) \<in> T" using a(2) x keys by simp
    qed
    then show ?thesis using inv' a(1) np k t
      unfolding recency_inv_def by (simp add: upsert_miss[OF None])
  next
    case b
    have "\<forall>x\<in>set (ll c). key ((elems c @ [?e]) ! x) \<in> T" using b keys by simp
    then show ?thesis using inv' t
      unfolding recency_inv_def by (simp add: upsert_miss[OF None])
  qed
next
  case (Some q)
  from r have inv: "lru_inv Len c" by (simp add: recency_inv_def)
  have qin: "q \<in> set (ll c)" and kq: "key (elems c ! q) = k" using inv Some by (auto simp: lru_inv_def)
  have lt: "\<forall>x\<in>set (ll c). x < length (elems c)" using inv by (simp add: lru_inv_def)
  let ?es = "(elems c)[q := (elems c ! q)\<lparr>val := v\<rparr>]"
  have inv': "lru_inv Len (Add_upsert Len c k v)" by (rule inv_upsert[OF inv])
  have keys: "\<And>x. x \<in> set (ll c) \<Longrightarrow> key (?es ! x) = key (elems c ! x)"
    using lt qin by (simp add: nth_list_update)
  have u: "ll (Add_upsert Len c k v) = q # remove1 q (ll c)" "elems (Add_upsert Len c k v) = ?es"
    "cache (Add_upsert Len c k v) = cache c"
    using qin by (simp_all add: upsert_hit[OF Some] MoveToFront_def)
  from r consider
    (a) "cache c K = Some p" "\<forall>x\<in>set (takeWhile (\<lambda>x. x \<noteq> p) (ll c)). key (elems c ! x) \<in> T"
    | (b) "\<forall>x\<in>set (ll c). key (elems c ! x) \<in> T"
    unfolding recency_inv_def by blast
  then show ?thesis
  proof cases
    case a
    have "key (elems c ! p) = K" using inv a(1) by (auto simp: lru_inv_def)
    then have qp: "q \<noteq> p" using kq k by auto
    have sub: "set (takeWhile (\<lambda>x. x \<noteq> p) (remove1 q (ll c))) \<subseteq> set (takeWhile (\<lambda>x. x \<noteq> p) (ll c))"
      using takeWhile_remove1[of "\<lambda>x. x \<noteq> p" q "ll c"] qp by simp
    have "\<forall>x\<in>set (takeWhile (\<lambda>x. x \<noteq> p) (remove1 q (ll c))). key (?es ! x) \<in> T"
    proof
      fix x assume x: "x \<in> set (takeWhile (\<lambda>x. x \<noteq> p) (remove1 q (ll c)))"
      then have "x \<in> set (takeWhile (\<lambda>x. x \<noteq> p) (ll c))" using sub by blast
      then have "key (elems c ! x) \<in> T" "x \<in> set (ll c)"
        using a(2) set_takeWhileD[of x "\<lambda>x. x \<noteq> p" "ll c"] by simp_all
      then show "key (?es ! x) \<in> T" using keys by simp
    qed
    moreover have "key (?es ! q) \<in> T" using keys[OF qin] kq t by simp
    ultimately show ?thesis unfolding recency_inv_def u using inv' a(1) qp by simp
  next
    case b
    have "\<forall>x\<in>set (q # remove1 q (ll c)). key (?es ! x) \<in> T"
    proof
      fix x assume "x \<in> set (q # remove1 q (ll c))"
      then have xin: "x \<in> set (ll c)" using qin set_remove1_subset[of q "ll c"] by auto
      then show "key (?es ! x) \<in> T" using b keys by simp
    qed
    then show ?thesis unfolding recency_inv_def u using inv' by simp
  qed
qed

lemma recency_evict:
  assumes "Add_evict Len c = Some c'"
  shows "recency_inv Len K p T c \<longrightarrow> recency_inv Len K p T c'"
proof (rule Add_evict.raw_induct[where P = "\<lambda>L c c'. recency_inv L K p T c \<longrightarrow> recency_inv L K p T c'"])
  fix f :: "('a \<Rightarrow> int64) \<Rightarrow> 'a Cache \<Rightarrow> 'a Cache option" and L c y
  assume IH: "\<And>c b y. f c b = Some y \<Longrightarrow> recency_inv c K p T b \<longrightarrow> recency_inv c K p T y"
    and eq: "(if maxBytes c \<noteq> 0 \<and> maxBytes c <s nBytes c then f L (Cache_RemoveOldest L c) else Some c) = Some y"
  show "recency_inv L K p T c \<longrightarrow> recency_inv L K p T y"
  proof (cases "maxBytes c \<noteq> 0 \<and> maxBytes c <s nBytes c")
    case True
    then have "f L (Cache_RemoveOldest L c) = Some y" using eq by simp
    from IH[OF this] show ?thesis by (simp add: recency_RemoveOldest)
  next
    case False
    then show ?thesis using eq by auto
  qed
next
  show "Add_evict Len c = Some c'" by (rule assms)
qed

lemma recency_step:
  assumes r: "recency_inv Len K p T c" and k: "K \<notin> op_keys x"
    and s: "lru_step Len c x = Some c'"
  shows "recency_inv Len K p (T \<union> op_keys x) c'"
proof (cases x)
  case (OpAdd k v)
  have r': "recency_inv Len K p (T \<union> {k}) c" by (rule recency_mono[OF r]) blast
  have "recency_inv Len K p (T \<union> {k}) (Add_upsert Len c k v)"
    using recency_upsert[OF r'] k OpAdd by simp
  moreover have "Add_evict Len (Add_upsert Len c k v) = Some c'"
    using s OpAdd by (simp add: Cache_Add_def)
  ultimately show ?thesis using recency_evict OpAdd by fastforce
next
  case (OpGet k)
  have r': "recency_inv Len K p (T \<union> {k}) c" by (rule recency_mono[OF r]) blast
  show ?thesis using recency_Get[OF r', of k] k s OpGet by auto
next
  case OpRemoveOldest
  then show ?thesis using recency_RemoveOldest[OF r] s by auto
qed

lemma recency_run:
  "recency_inv Len K p T c \<Longrightarrow> K \<notin> touched ops \<Longrightarrow> lru_run Len c ops = Some c' \<Longrightarrow>
   recency_inv Len K p (T \<union> touched ops) c'"
proof (induction ops arbitrary: c T)
  case Nil
  then show ?case by (simp add: touched_def)
next
  case (Cons x xs)
  from Cons.prems(3) obtain c1 where s: "lru_step Len c x = Some c1" and r: "lru_run Len c1 xs = Some c'"
    by (auto split: option.splits)
  have kx: "K \<notin> op_keys x" and kxs: "K \<notin> touched xs" using Cons.prems(2) by (simp_all add: touched_def)
  from Cons.IH[OF recency_step[OF Cons.prems(1) kx s] kxs r]
  show ?case by (simp add: touched_def Un_assoc)
qed

lemma recency_after_Get:
  assumes inv: "lru_inv Len c" and has: "cache c K = Some p"
  shows "recency_inv Len K p {} (snd (Cache_Get c K))"
proof -
  have pin: "p \<in> set (ll c)" using inv has by (auto simp: lru_inv_def)
  have s: "snd (Cache_Get c K) = c\<lparr>ll := p # remove1 p (ll c)\<rparr>"
    using has pin by (simp add: Cache_Get_def MoveToFront_def)
  show ?thesis unfolding recency_inv_def using inv_Get[OF inv, of K] has unfolding s by simp
qed

lemma RemoveOldest_length: "length (ll (Cache_RemoveOldest Len c)) = length (ll c) - 1"
  by (simp add: Cache_RemoveOldest_def Back_def Remove_def deallocate_def Let_def length_remove1)

lemma RemoveOldest_pow_length: "length (ll ((Cache_RemoveOldest Len ^^ n) c)) = length (ll c) - n"
  by (induction n) (simp_all add: RemoveOldest_length)

lemma run_RemoveOldest:
  "lru_run Len c (replicate n OpRemoveOldest) = Some ((Cache_RemoveOldest Len ^^ n) c)"
  by (induction n arbitrary: c) (simp_all add: funpow_swap1)

lemma touched_replicate: "touched (replicate n OpRemoveOldest) = {}"
  by (simp add: touched_def)

text \<open>
  C4 (recency promotion).  Take any state reached from a new store that holds the key \<open>K\<close>,
  at address \<open>p\<close>.  \<open>Get\<close> of \<open>K\<close> returns its value and moves \<open>p\<close> to the front of the
  recency list, leaving the order of the other entries as it was.  From there, after any
  operations that do not access \<open>K\<close> (gets and adds of other keys, with the evictions the
  adds cause, and calls of \<open>RemoveOldest\<close>), either \<open>K\<close> is still in the store or every
  key in the store was accessed by one of these operations: \<open>K\<close> is not evicted while an
  entry accessed less recently remains.  In particular \<open>K\<close> survives every run of fewer
  \<open>RemoveOldest\<close> calls than the store has entries.  \<open>RemoveOldest\<close> on a store that is not
  empty removes the entry at the back of the recency list, from the list and from the map.
\<close>

theorem C4_recency:
  assumes reach: "lru_run Len (lru_New M cb) ops0 = Some c" and has: "cache c K = Some p"
  shows "Cache_Get c K = (Some (val (elems c ! p)), c\<lparr>ll := p # remove1 p (ll c)\<rparr>) \<and>
    key (elems c ! p) = K \<and>
    (\<forall>ops c'. K \<notin> touched ops \<and> lru_run Len (snd (Cache_Get c K)) ops = Some c' \<longrightarrow>
       cache c' K = Some p \<or> (\<forall>k'. cache c' k' \<noteq> None \<longrightarrow> k' \<in> touched ops)) \<and>
    (\<forall>n<length (ll c). cache ((Cache_RemoveOldest Len ^^ n) (snd (Cache_Get c K))) K = Some p) \<and>
    (ll c \<noteq> [] \<longrightarrow>
       ll (Cache_RemoveOldest Len c) = butlast (ll c) \<and>
       cache (Cache_RemoveOldest Len c) = (cache c)(key (elems c ! last (ll c)) := None))"
proof -
  from reach_inv[OF reach] have inv: "lru_inv Len c" by simp
  have pin: "p \<in> set (ll c)" and kp: "key (elems c ! p) = K" using inv has by (auto simp: lru_inv_def)
  have d: "distinct (ll c)" using inv by (simp add: lru_inv_def)
  let ?c0 = "snd (Cache_Get c K)"
  have g: "Cache_Get c K = (Some (val (elems c ! p)), c\<lparr>ll := p # remove1 p (ll c)\<rparr>)"
    using has pin by (simp add: Cache_Get_def MoveToFront_def)
  have r0: "recency_inv Len K p {} ?c0" by (rule recency_after_Get[OF inv has])
  have B: "\<forall>ops c'. K \<notin> touched ops \<and> lru_run Len ?c0 ops = Some c' \<longrightarrow>
       cache c' K = Some p \<or> (\<forall>k'. cache c' k' \<noteq> None \<longrightarrow> k' \<in> touched ops)"
  proof (intro allI impI)
    fix ops c' assume a: "K \<notin> touched ops \<and> lru_run Len ?c0 ops = Some c'"
    from recency_run[OF r0, of ops c'] a have r: "recency_inv Len K p (touched ops) c'" by simp
    then have inv': "lru_inv Len c'" by (simp add: recency_inv_def)
    from r consider "cache c' K = Some p" | "\<forall>q\<in>set (ll c'). key (elems c' ! q) \<in> touched ops"
      unfolding recency_inv_def by blast
    then show "cache c' K = Some p \<or> (\<forall>k'. cache c' k' \<noteq> None \<longrightarrow> k' \<in> touched ops)"
    proof cases
      case 1
      then show ?thesis by simp
    next
      case 2
      have "\<forall>k'. cache c' k' \<noteq> None \<longrightarrow> k' \<in> touched ops"
      proof (intro allI impI)
        fix k' assume "cache c' k' \<noteq> None"
        then obtain q where "cache c' k' = Some q" by auto
        then have "q \<in> set (ll c')" "key (elems c' ! q) = k'" using inv' by (auto simp: lru_inv_def)
        then show "k' \<in> touched ops" using 2 by auto
      qed
      then show ?thesis by simp
    qed
  qed
  have C: "\<forall>n<length (ll c). cache ((Cache_RemoveOldest Len ^^ n) ?c0) K = Some p"
  proof (intro allI impI)
    fix n assume n: "n < length (ll c)"
    let ?c' = "(Cache_RemoveOldest Len ^^ n) ?c0"
    have "0 < length (ll c)" using pin by (cases "ll c") auto
    then have "length (ll ?c0) = length (ll c)" using g pin by (simp add: length_remove1)
    then have len: "0 < length (ll ?c')" using n by (simp add: RemoveOldest_pow_length)
    from recency_run[OF r0, of "replicate n OpRemoveOldest" ?c']
    have r: "recency_inv Len K p {} ?c'" by (simp add: touched_replicate run_RemoveOldest)
    then show "cache ?c' K = Some p" using len unfolding recency_inv_def by auto
  qed
  have D: "ll c \<noteq> [] \<longrightarrow>
       ll (Cache_RemoveOldest Len c) = butlast (ll c) \<and>
       cache (Cache_RemoveOldest Len c) = (cache c)(key (elems c ! last (ll c)) := None)"
    using RemoveOldest_fields[OF _ d, of Len] by simp
  show ?thesis using g kp B C D by blast
qed

lemma scenario_two_adds:
  "lru_run string_Len (lru_New 20 False) [OpAdd ''k1'' ''12345'', OpAdd ''k2'' ''67890''] =
   Some \<lparr>maxBytes = 20, nBytes = 14, ll = [1, 0], cache = [''k1'' \<mapsto> 0, ''k2'' \<mapsto> 1],
         OnEvicted = False,
         elems = [\<lparr>key = ''k1'', val = ''12345''\<rparr>, \<lparr>key = ''k2'', val = ''67890''\<rparr>],
         evicted = []\<rparr>"
  by (simp add: Cache_Add_def Add_upsert_def lru_New_def PushFront_def allocate_def Add_evict.simps Let_def
        string_Len_def word_sless_alt)

theorem C4_recency_witness:
  "Cache_Get \<lparr>maxBytes = 20, nBytes = 14, ll = [1, 0], cache = [''k1'' \<mapsto> 0, ''k2'' \<mapsto> 1],
         OnEvicted = False,
         elems = [\<lparr>key = ''k1'', val = ''12345''\<rparr>, \<lparr>key = ''k2'', val = ''67890''\<rparr>],
         evicted = []\<rparr> ''k1'' =
     (Some ''12345'',
      \<lparr>maxBytes = 20, nBytes = 14, ll = [0, 1], cache = [''k1'' \<mapsto> 0, ''k2'' \<mapsto> 1],
         OnEvicted = False,
         elems = [\<lparr>key = ''k1'', val = ''12345''\<rparr>, \<lparr>key = ''k2'', val = ''67890''\<rparr>],
         evicted = []\<rparr>) \<and>
   cache (Cache_RemoveOldest string_Len
     (snd (Cache_Get \<lparr>maxBytes = 20, nBytes = 14, ll = [1, 0], cache = [''k1'' \<mapsto> 0, ''k2'' \<mapsto> 1],
         OnEvicted = False,
         elems = [\<lparr>key = ''k1'', val = ''12345''\<rparr>, \<lparr>key = ''k2'', val = ''67890''\<rparr>],
         evicted = []\<rparr> ''k1''))) ''k1'' = Some 0"
proof -
  let ?c = "\<lparr>maxBytes = 20, nBytes = 14, ll = [1, 0], cache = [''k1'' \<mapsto> 0, ''k2'' \<mapsto> (1::nat)],
         OnEvicted = False,
         elems = [\<lparr>key = ''k1'', val = ''12345''\<rparr>, \<lparr>key = ''k2'', val = ''67890''\<rparr>],
         evicted = []\<rparr>"
  have h: "cache ?c ''k1'' = Some 0" by simp
  note t = C4_recency[OF scenario_two_adds h]
  from t have a: "Cache_Get ?c ''k1'' = (Some (val (elems ?c ! 0)), ?c\<lparr>ll := 0 # remove1 0 (ll ?c)\<rparr>)"
    by blast
  from t have all: "\<forall>n<length (ll ?c). cache ((Cache_RemoveOldest string_Len ^^ n) (snd (Cache_Get ?c ''k1''))) ''k1'' = Some 0"
    by blast
  have "(1::nat) < length (ll ?c)" by simp
  from all[rule_format, OF this]
  have b: "cache ((Cache_RemoveOldest string_Len ^^ 1) (snd (Cache_Get ?c ''k1''))) ''k1'' = Some 0" .
  show ?thesis using a b by simp
qed

text \<open>
  Scenario 1 of the spec, evaluated: capacity 20 and three entries of cost 7 each.  The
  third \<open>Add\<close> evicts "k1", and the callback receives it.
\<close>

lemma scenario_capacity_20:
  "map_option (\<lambda>c. (Cache_Len c, nBytes c, fst (Cache_Get c ''k1''), fst (Cache_Get c ''k2''),
                    fst (Cache_Get c ''k3''), evicted c))
     (lru_run string_Len (lru_New 20 True)
        [OpAdd ''k1'' ''12345'', OpAdd ''k2'' ''67890'', OpAdd ''k3'' ''abcde'']) =
   Some (2, 14, None, Some ''67890'', Some ''abcde'', [(''k1'', ''12345'')])"
  by (simp add: Cache_Add_def Add_upsert_def lru_New_def PushFront_def allocate_def
        Add_evict.simps Cache_RemoveOldest_def Back_def Remove_def deallocate_def Let_def
        Cache_Len_def Cache_Get_def string_Len_def word_sless_alt)

section \<open>The hash ring: binary search, ring invariant and lookup\<close>

lemma Search_loop_spec:
  assumes mono: "\<And>a b. a \<le> b \<Longrightarrow> b < n \<Longrightarrow> f a \<Longrightarrow> f b"
  shows "i \<le> j \<Longrightarrow> j \<le> n \<Longrightarrow> (\<forall>k<i. \<not> f k) \<Longrightarrow> (\<forall>k. j \<le> k \<and> k < n \<longrightarrow> f k) \<Longrightarrow>
         i \<le> Search_loop f i j \<and> Search_loop f i j \<le> j \<and>
         (\<forall>k<Search_loop f i j. \<not> f k) \<and> (\<forall>k. Search_loop f i j \<le> k \<and> k < n \<longrightarrow> f k)"
proof (induction "j - i" arbitrary: i j rule: less_induct)
  case less
  show ?case
  proof (cases "i < j")
    case False
    then have "Search_loop f i j = i" by (subst Search_loop.simps) simp
    then show ?thesis using less.prems False by auto
  next
    case True
    let ?h = "(i + j) div 2"
    have h: "i \<le> ?h" "?h < j" using True by auto
    show ?thesis
    proof (cases "f ?h")
      case False
      have eq: "Search_loop f i j = Search_loop f (?h + 1) j" using True False
        by (subst Search_loop.simps) (simp add: Let_def)
      have lo: "\<forall>k<?h + 1. \<not> f k"
      proof (intro allI impI)
        fix k assume "k < ?h + 1"
        then have kh: "k \<le> ?h" by simp
        have hn: "?h < n" using h less.prems(2) by simp
        show "\<not> f k"
        proof
          assume "f k"
          from mono[OF kh hn this] show False using False by simp
        qed
      qed
      have m: "j - (?h + 1) < j - i" using h by simp
      have b: "?h + 1 \<le> j" using h by simp
      from less.hyps[OF m b less.prems(2) lo less.prems(4)] h
      show ?thesis unfolding eq by auto
    next
      case fh: True
      have eq: "Search_loop f i j = Search_loop f i ?h" using True fh
        by (subst Search_loop.simps) (simp add: Let_def)
      have hi: "\<forall>k. ?h \<le> k \<and> k < n \<longrightarrow> f k"
        using mono[OF _ _ fh] by blast
      have m: "?h - i < j - i" using h by simp
      have b: "?h \<le> n" using h less.prems(2) by simp
      from less.hyps[OF m h(1) b less.prems(3) hi] h
      show ?thesis unfolding eq by auto
    qed
  qed
qed

lemma sort_Search_sorted:
  fixes h :: int
  assumes "sorted ks"
  shows "sort_Search (length ks) (\<lambda>i. ks ! i \<ge> h) \<le> length ks"
    and "\<forall>k. k < sort_Search (length ks) (\<lambda>i. ks ! i \<ge> h) \<longrightarrow> ks ! k < h"
    and "\<forall>k. sort_Search (length ks) (\<lambda>i. ks ! i \<ge> h) \<le> k \<and> k < length ks \<longrightarrow> h \<le> ks ! k"
proof -
  have mono: "\<And>a b. a \<le> b \<Longrightarrow> b < length ks \<Longrightarrow> h \<le> ks ! a \<Longrightarrow> h \<le> ks ! b"
  proof -
    fix a b assume "a \<le> b" "b < length ks" "h \<le> ks ! a"
    from sorted_nth_mono[OF assms this(1,2)] this(3) show "h \<le> ks ! b" by simp
  qed
  let ?r = "sort_Search (length ks) (\<lambda>i. ks ! i \<ge> h)"
  have "0 \<le> ?r \<and> ?r \<le> length ks \<and> (\<forall>k<?r. \<not> h \<le> ks ! k) \<and> (\<forall>k. ?r \<le> k \<and> k < length ks \<longrightarrow> h \<le> ks ! k)"
    unfolding sort_Search_def
    by (rule Search_loop_spec[of "length ks" "\<lambda>i. ks ! i \<ge> h" 0 "length ks"]) (simp_all add: mono)
  then show "?r \<le> length ks" "\<forall>k. k < ?r \<longrightarrow> ks ! k < h" "\<forall>k. ?r \<le> k \<and> k < length ks \<longrightarrow> h \<le> ks ! k"
    by (simp_all add: not_le)
qed


lemma Add_replica_fields:
  "hash (Add_replica node m i) = hash m"
  "replicas (Add_replica node m i) = replicas m"
  "keys (Add_replica node m i) = keys m @ [vhash (hash m) node i]"
  "hashMap (Add_replica node m i) = (hashMap m)(vhash (hash m) node i \<mapsto> node)"
  by (simp_all add: Add_replica_def vhash_def Let_def)

lemma fold_replica:
  "hash (foldl (Add_replica node) m js) = hash m \<and>
   replicas (foldl (Add_replica node) m js) = replicas m \<and>
   keys (foldl (Add_replica node) m js) = keys m @ map (vhash (hash m) node) js \<and>
   (\<forall>h. hashMap (foldl (Add_replica node) m js) h =
        (if h \<in> vhash (hash m) node ` set js then Some node else hashMap m h))"
proof (induction js arbitrary: m)
  case Nil
  show ?case by simp
next
  case (Cons j js)
  show ?case using Cons[of "Add_replica node m j"]
    by (auto simp: Add_replica_fields)
qed

lemma Add_node_inv:
  assumes "ring_inv hf r nodes m"
  shows "ring_inv hf r (nodes @ [node]) (Add_node m node)"
proof -
  from assms have hm: "hash m = hf" and rm: "replicas m = r"
    and ks: "mset (keys m) = mset (concat (map (\<lambda>node. map (vhash hf node) [0..<nat r]) nodes))"
    and dm: "dom (hashMap m) = set (keys m)"
    and own: "\<And>h n. hashMap m h = Some n \<Longrightarrow> n \<in> set nodes \<and> (\<exists>i<nat r. vhash hf n i = h)"
    by (auto simp: ring_inv_def)
  note f = fold_replica[of node m "[0..<nat r]", unfolded hm]
  let ?m = "Add_node m node"
  have a: "hash ?m = hf" "replicas ?m = r" using f hm rm by (simp_all add: Add_node_def)
  have k: "keys ?m = keys m @ map (vhash hf node) [0..<nat r]" using f rm by (simp add: Add_node_def)
  have hmap: "\<And>h. hashMap ?m h = (if h \<in> vhash hf node ` set [0..<nat r] then Some node else hashMap m h)"
    using f rm by (simp add: Add_node_def)
  have c3: "mset (keys ?m) = mset (concat (map (\<lambda>node. map (vhash hf node) [0..<nat r]) (nodes @ [node])))"
    using ks k by simp
  have c4: "dom (hashMap ?m) = set (keys ?m)"
  proof (rule set_eqI)
    fix h
    have "h \<in> dom (hashMap ?m) \<longleftrightarrow> h \<in> vhash hf node ` set [0..<nat r] \<or> h \<in> dom (hashMap m)"
      unfolding dom_def hmap by simp
    then show "h \<in> dom (hashMap ?m) \<longleftrightarrow> h \<in> set (keys ?m)"
      unfolding k dm by auto
  qed
  have c5: "\<forall>h n. hashMap ?m h = Some n \<longrightarrow> n \<in> set (nodes @ [node]) \<and> (\<exists>i<nat r. vhash hf n i = h)"
  proof (intro allI impI)
    fix h n assume "hashMap ?m h = Some n"
    then consider "h \<in> vhash hf node ` set [0..<nat r]" "n = node" | "hashMap m h = Some n"
      unfolding hmap by (cases "h \<in> vhash hf node ` set [0..<nat r]") simp_all
    then show "n \<in> set (nodes @ [node]) \<and> (\<exists>i<nat r. vhash hf n i = h)"
    proof cases
      case 1
      then show ?thesis by auto
    next
      case 2
      from own[OF this] show ?thesis by simp
    qed
  qed
  show ?thesis unfolding ring_inv_def
    by (intro conjI) (rule a c3 c4 c5)+
qed

lemma fold_node_inv:
  "ring_inv hf r nodes m \<Longrightarrow> ring_inv hf r (nodes @ ns) (foldl Add_node m ns)"
proof (induction ns arbitrary: m nodes)
  case Nil
  then show ?case by simp
next
  case (Cons n ns)
  from Cons.IH[OF Add_node_inv[OF Cons.prems, of n]] show ?case by simp
qed

lemma Map_Add_inv:
  assumes "ring_inv hf r nodes m"
  shows "ring_inv hf r (nodes @ ns) (Map_Add m ns) \<and> sorted (keys (Map_Add m ns))"
  using fold_node_inv[OF assms, of ns]
  by (simp add: Map_Add_def Let_def ring_inv_def)

lemma New_inv:
  "ring_inv (case fn of None \<Rightarrow> crc | Some f \<Rightarrow> f) r [] (consistenthash_New crc r fn)"
  by (simp add: ring_inv_def consistenthash_New_def)

lemma fold_Add_inv:
  "ring_inv hf r nodes m \<Longrightarrow> sorted (keys m) \<Longrightarrow>
   ring_inv hf r (nodes @ concat calls) (foldl Map_Add m calls) \<and> sorted (keys (foldl Map_Add m calls))"
proof (induction calls arbitrary: m nodes)
  case Nil
  then show ?case by simp
next
  case (Cons ns calls)
  from Map_Add_inv[OF Cons.prems(1), of ns] Cons.IH[of "nodes @ ns" "Map_Add m ns"]
  show ?case by simp
qed

lemma ring_of_inv:
  "ring_inv (case fn of None \<Rightarrow> crc | Some f \<Rightarrow> f) r (concat calls) (ring_of crc r fn calls) \<and>
   sorted (keys (ring_of crc r fn calls))"
  using fold_Add_inv[OF New_inv, of crc r fn calls]
  by (simp add: ring_of_def consistenthash_New_def)

lemma ring_inv_length:
  assumes "ring_inv hf r nodes m"
  shows "length (keys m) = nat r * length nodes"
proof -
  have "length (keys m) = size (mset (keys m))" by simp
  also have "\<dots> = length (concat (map (\<lambda>node. map (vhash hf node) [0..<nat r]) nodes))"
    using assms by (simp only: ring_inv_def size_mset)
  also have "\<dots> = nat r * length nodes"
    by (induction nodes) (simp_all add: algebra_simps)
  finally show ?thesis .
qed

lemma successor_sorted:
  fixes h :: int
  assumes s: "sorted ks" and ne: "ks \<noteq> []"
  shows "ks ! (sort_Search (length ks) (\<lambda>i. ks ! i \<ge> h) mod length ks) = ring_successor ks h"
proof -
  let ?r = "sort_Search (length ks) (\<lambda>i. ks ! i \<ge> h)"
  note ss = sort_Search_sorted[OF s, of h]
  have n: "0 < length ks" using ne by simp
  show ?thesis
  proof (cases "\<exists>k\<in>set ks. h \<le> k")
    case True
    then obtain j where j: "j < length ks" "h \<le> ks ! j" by (auto simp: in_set_conv_nth)
    have rj: "?r \<le> j"
    proof (rule ccontr)
      assume "\<not> ?r \<le> j"
      then have "ks ! j < h" using ss(2) by simp
      then show False using j(2) by simp
    qed
    then have rl: "?r < length ks" using j(1) by simp
    have ge: "h \<le> ks ! ?r" using ss(3) rl by simp
    have "Min {k \<in> set ks. h \<le> k} = ks ! ?r"
    proof (rule Min_eqI)
      show "finite {k \<in> set ks. h \<le> k}" by simp
      show "ks ! ?r \<in> {k \<in> set ks. h \<le> k}" using rl ge by simp
      fix y assume "y \<in> {k \<in> set ks. h \<le> k}"
      then obtain i where i: "i < length ks" "y = ks ! i" "h \<le> ks ! i" by (auto simp: in_set_conv_nth)
      have "?r \<le> i"
      proof (rule ccontr)
        assume "\<not> ?r \<le> i"
        then have "ks ! i < h" using ss(2) by simp
        then show False using i(3) by simp
      qed
      from sorted_nth_mono[OF s this i(1)] show "ks ! ?r \<le> y" using i(2) by simp
    qed
    then show ?thesis using True rl by (simp add: ring_successor_def)
  next
    case False
    have "?r = length ks"
    proof (rule ccontr)
      assume "?r \<noteq> length ks"
      then have rl: "?r < length ks" using ss(1) by simp
      then have "h \<le> ks ! ?r" using ss(3) by simp
      then show False using False rl by (meson nth_mem)
    qed
    moreover have "Min (set ks) = ks ! 0"
    proof (rule Min_eqI)
      show "finite (set ks)" by simp
      show "ks ! 0 \<in> set ks" using n by simp
      fix y assume "y \<in> set ks"
      then obtain i where i: "i < length ks" "y = ks ! i" by (auto simp: in_set_conv_nth)
      from sorted_nth_mono[OF s _ i(1), of 0] show "ks ! 0 \<le> y" using i(2) by simp
    qed
    ultimately show ?thesis using False by (simp add: ring_successor_def)
  qed
qed

lemma successor_in_set:
  assumes "ks \<noteq> []"
  shows "ring_successor ks h \<in> set ks"
proof (cases "\<exists>k\<in>set ks. h \<le> k")
  case True
  then have "{k \<in> set ks. h \<le> k} \<noteq> {}" by auto
  then have "Min {k \<in> set ks. h \<le> k} \<in> {k \<in> set ks. h \<le> k}" by (intro Min_in) simp_all
  then show ?thesis using True by (simp add: ring_successor_def)
next
  case False
  then show ?thesis using assms by (simp add: ring_successor_def)
qed

lemma ring_inv_set:
  assumes "ring_inv hf r nodes m"
  shows "set (keys m) = (\<Union>node\<in>set nodes. vhash hf node ` {0..<nat r})"
proof -
  have "set (keys m) = set_mset (mset (keys m))" by simp
  also have "\<dots> = set (concat (map (\<lambda>node. map (vhash hf node) [0..<nat r]) nodes))"
    using assms by (simp only: ring_inv_def set_mset_mset)
  also have "\<dots> = (\<Union>node\<in>set nodes. vhash hf node ` {0..<nat r})" by auto
  finally show ?thesis .
qed

lemma Get_successor:
  assumes inv: "ring_inv hf r nodes m" and s: "sorted (keys m)" and ne: "keys m \<noteq> []"
  shows "\<exists>node\<in>set nodes. hashMap m (ring_successor (keys m) (int (unat (hf k)))) = Some node \<and>
           Map_Get m k = node \<and> (\<exists>i<nat r. vhash hf node i = ring_successor (keys m) (int (unat (hf k))))"
proof -
  let ?t = "ring_successor (keys m) (int (unat (hf k)))"
  have hm: "hash m = hf" using inv by (simp add: ring_inv_def)
  have "?t \<in> set (keys m)" by (rule successor_in_set[OF ne])
  then have "?t \<in> dom (hashMap m)" using inv by (simp add: ring_inv_def)
  then obtain node where n: "hashMap m ?t = Some node" by auto
  then have own: "node \<in> set nodes" "\<exists>i<nat r. vhash hf node i = ?t"
    using inv by (auto simp: ring_inv_def)
  have "Map_Get m k = node"
    using ne n by (simp add: Map_Get_def Let_def hm successor_sorted[OF s ne])
  then show ?thesis using n own by auto
qed

lemma Get_empty: "keys m = [] \<Longrightarrow> Map_Get m k = ''''"
  by (simp add: Map_Get_def)

lemma ring_example_keys:
  "keys (ring_of crc 3 (Some parse_hash) [[''2'', ''4'', ''6'']]) = [2, 4, 6, 12, 14, 16, 22, 24, 26]"
  by (simp add: ring_of_def consistenthash_New_def Map_Add_def Add_node_def Add_replica_def Itoa_def
       parse_hash_def digit_val_def Let_def upt_rec)

lemma ring_example_hashMap:
  "hashMap (ring_of crc 3 (Some parse_hash) [[''2'', ''4'', ''6'']]) 2 = Some ''2''"
  by (simp add: ring_of_def consistenthash_New_def Map_Add_def Add_node_def Add_replica_def Itoa_def
       parse_hash_def digit_val_def Let_def upt_rec)

lemma ring_example_any:
  assumes "unat (parse_hash k) = 27"
  shows "Map_Get (ring_of crc 3 (Some parse_hash) [[''2'', ''4'', ''6'']]) k = ''2''"
proof -
  let ?m = "ring_of crc 3 (Some parse_hash) [[''2'', ''4'', ''6'']]"
  from ring_of_inv[where fn="Some parse_hash" and crc=crc and r=3 and calls="[[''2'', ''4'', ''6'']]"]
  have inv: "ring_inv parse_hash 3 (concat [[''2'', ''4'', ''6'']]) ?m" and s: "sorted (keys ?m)"
    by simp_all
  have ks: "keys ?m = [2, 4, 6, 12, 14, 16, 22, 24, 26]" by (rule ring_example_keys)
  then have ne: "keys ?m \<noteq> []" by simp
  have succ: "ring_successor (keys ?m) (int (unat (parse_hash k))) = 2"
    unfolding ks assms by (simp add: ring_successor_def)
  from Get_successor[OF inv s ne, of k] obtain node where
    "hashMap ?m (ring_successor (keys ?m) (int (unat (parse_hash k)))) = Some node" "Map_Get ?m k = node"
    by blast
  then show ?thesis unfolding succ by (simp add: ring_example_hashMap)
qed

text \<open>
  C3 (ring lookup).  On the ring built by any sequence of \<open>Add\<close> calls the sequence is
  sorted and holds the replica hashes of the registered nodes.  \<open>Get\<close> returns the empty
  string when no node is registered (or the sequence is empty), and otherwise the
  registered node that the lookup map holds for \<open>ring_successor\<close>: the smallest virtual
  hash that is at least the hash of the key, the smallest of all when there is none.  With
  three replicas, the integer-parsing hash and the nodes "2", "4", "6", the key "27"
  hashes to 27, and every key that hashes to 27 maps to node "2".
\<close>

theorem C3_ring_lookup:
  "(let m = ring_of crc r fn calls;
        hf = (case fn of None \<Rightarrow> crc | Some f \<Rightarrow> f);
        h = int (unat (hf k))
    in sorted (keys m) \<and>
       set (keys m) = (\<Union>node\<in>set (concat calls). vhash hf node ` {0..<nat r}) \<and>
       (concat calls = [] \<longrightarrow> Map_Get m k = '''') \<and>
       (keys m = [] \<longrightarrow> Map_Get m k = '''') \<and>
       (keys m \<noteq> [] \<longrightarrow>
          (\<exists>node\<in>set (concat calls).
              hashMap m (ring_successor (keys m) h) = Some node \<and> Map_Get m k = node))) \<and>
   unat (parse_hash ''27'') = 27 \<and>
   (\<forall>k'. unat (parse_hash k') = 27 \<longrightarrow>
      Map_Get (ring_of crc 3 (Some parse_hash) [[''2'', ''4'', ''6'']]) k' = ''2'')"
proof -
  let ?m = "ring_of crc r fn calls"
  let ?hf = "case fn of None \<Rightarrow> crc | Some f \<Rightarrow> f"
  from ring_of_inv[where fn=fn and crc=crc and r=r and calls=calls] have inv: "ring_inv ?hf r (concat calls) ?m"
    and s: "sorted (keys ?m)" by simp_all
  have st: "set (keys ?m) = (\<Union>node\<in>set (concat calls). vhash ?hf node ` {0..<nat r})"
    by (rule ring_inv_set[OF inv])
  have e1: "concat calls = [] \<longrightarrow> Map_Get ?m k = ''''"
  proof
    assume "concat calls = []"
    then have "set (keys ?m) = {}" unfolding st by (simp only: list.set UN_empty)
    then show "Map_Get ?m k = ''''" by (simp add: Get_empty)
  qed
  have e2: "keys ?m = [] \<longrightarrow> Map_Get ?m k = ''''" by (simp add: Get_empty)
  have e3: "keys ?m \<noteq> [] \<longrightarrow> (\<exists>node\<in>set (concat calls).
              hashMap ?m (ring_successor (keys ?m) (int (unat (?hf k)))) = Some node \<and> Map_Get ?m k = node)"
  proof
    assume "keys ?m \<noteq> []"
    from Get_successor[OF inv s this, of k]
    show "\<exists>node\<in>set (concat calls).
              hashMap ?m (ring_successor (keys ?m) (int (unat (?hf k)))) = Some node \<and> Map_Get ?m k = node"
      by blast
  qed
  have p: "unat (parse_hash ''27'') = 27" by (simp add: parse_hash_def digit_val_def)
  have ex: "\<forall>k'. unat (parse_hash k') = 27 \<longrightarrow>
      Map_Get (ring_of crc 3 (Some parse_hash) [[''2'', ''4'', ''6'']]) k' = ''2''"
    using ring_example_any by blast
  show ?thesis unfolding Let_def
    by (intro conjI) (rule s st e1 e2 e3 p ex)+
qed

theorem C3_ring_lookup_witness:
  "keys (ring_of (\<lambda>_. 0) 3 (Some parse_hash) [[''6'', ''4'', ''2'']]) \<noteq> [] \<and>
   (\<exists>node\<in>set (concat [[''6'', ''4'', ''2'']]).
      hashMap (ring_of (\<lambda>_. 0) 3 (Some parse_hash) [[''6'', ''4'', ''2'']])
        (ring_successor (keys (ring_of (\<lambda>_. 0) 3 (Some parse_hash) [[''6'', ''4'', ''2'']]))
           (int (unat (parse_hash ''23'')))) = Some node \<and>
      Map_Get (ring_of (\<lambda>_. 0) 3 (Some parse_hash) [[''6'', ''4'', ''2'']]) ''23'' = node)"
proof -
  have ne: "keys (ring_of (\<lambda>_. 0) 3 (Some parse_hash) [[''6'', ''4'', ''2'']]) \<noteq> []"
    by (simp add: ring_of_def consistenthash_New_def Map_Add_def Add_node_def Add_replica_def Let_def upt_rec)
  from C3_ring_lookup[of "\<lambda>_. 0" 3 "Some parse_hash" "[[''6'', ''4'', ''2'']]" "''23''"] ne
  show ?thesis unfolding Let_def by simp
qed

lemma successor_set_cong:
  "set ks = set ks' \<Longrightarrow> ring_successor ks h = ring_successor ks' h"
  by (simp add: ring_successor_def)

lemma Get_node_set:
  assumes i1: "ring_inv hf r nodes1 m1" and s1: "sorted (keys m1)"
    and i2: "ring_inv hf r nodes2 m2" and s2: "sorted (keys m2)"
    and same: "set nodes1 = set nodes2"
    and inj: "\<forall>a\<in>set nodes1. \<forall>b\<in>set nodes1. \<forall>i<nat r. \<forall>j<nat r.
                vhash hf a i = vhash hf b j \<longrightarrow> a = b"
  shows "Map_Get m1 k = Map_Get m2 k"
proof -
  have ks: "set (keys m1) = set (keys m2)"
    using ring_inv_set[OF i1] ring_inv_set[OF i2] same by simp
  show ?thesis
  proof (cases "keys m1 = []")
    case True
    then have "keys m2 = []" using ks by simp
    then show ?thesis using True by (simp add: Get_empty)
  next
    case False
    then have ne2: "keys m2 \<noteq> []" using ks by auto
    let ?t = "ring_successor (keys m1) (int (unat (hf k)))"
    have t: "ring_successor (keys m2) (int (unat (hf k))) = ?t"
      by (rule successor_set_cong[OF ks[symmetric]])
    from Get_successor[OF i1 s1 False, of k] obtain a i where
      a: "a \<in> set nodes1" "Map_Get m1 k = a" "i < nat r" "vhash hf a i = ?t" by blast
    from Get_successor[OF i2 s2 ne2, of k] obtain b j where
      b: "b \<in> set nodes2" "Map_Get m2 k = b" "j < nat r" "vhash hf b j = ?t" unfolding t by blast
    have "a = b" using inj a(1,3,4) b(1,3,4) same by auto
    then show ?thesis using a(2) b(2) by simp
  qed
qed

text \<open>
  C9, as stated, fails: registering the node "2" twice on a ring with one replica gives a
  sequence of two entries, while one replica times one distinct node is one.
\<close>

theorem C9_ring_size_counterexample:
  "keys (ring_of unused_hash 1 (Some parse_hash) [[''2''], [''2'']]) = [2, 2] \<and>
   card (set (concat [[''2''], [''2'']])) = 1 \<and>
   int (length (keys (ring_of unused_hash 1 (Some parse_hash) [[''2''], [''2'']]))) \<noteq>
     1 * int (card (set (concat [[''2''], [''2'']])))"
  by (simp add: ring_of_def consistenthash_New_def Map_Add_def Add_node_def Add_replica_def Let_def
       Itoa_def parse_hash_def digit_val_def)

text \<open>
  C9 (ring size and determinism), amended.  The sorted sequence of the ring built by any
  sequence of \<open>Add\<close> calls holds \<open>replicas\<close> entries for every node identifier passed to
  \<open>Add\<close>, counted with repetition (none when \<open>replicas\<close> is not positive); this is
  \<open>replicas\<close> times the number of distinct registered nodes when no identifier is
  registered twice and \<open>replicas\<close> is not negative.  Lookups are determined by the node
  set: when no two distinct nodes share a replica hash, every ring with the same replica
  count, hash function and set of registered nodes answers every \<open>Get\<close> alike, whatever
  the order and repetition of the registrations.
\<close>

theorem C9_ring_size:
  "(let m = ring_of crc r fn calls;
        hf = (case fn of None \<Rightarrow> crc | Some f \<Rightarrow> f)
    in sorted (keys m) \<and>
       length (keys m) = nat r * length (concat calls) \<and>
       (0 \<le> r \<and> distinct (concat calls) \<longrightarrow>
          int (length (keys m)) = r * int (card (set (concat calls)))) \<and>
       (\<forall>calls'. set (concat calls') = set (concat calls) \<and>
           (\<forall>a\<in>set (concat calls). \<forall>b\<in>set (concat calls). \<forall>i<nat r. \<forall>j<nat r.
               vhash hf a i = vhash hf b j \<longrightarrow> a = b) \<longrightarrow>
           (\<forall>k. Map_Get (ring_of crc r fn calls') k = Map_Get m k)))"
proof -
  let ?m = "ring_of crc r fn calls"
  let ?hf = "case fn of None \<Rightarrow> crc | Some f \<Rightarrow> f"
  from ring_of_inv[where fn=fn and crc=crc and r=r and calls=calls]
  have inv: "ring_inv ?hf r (concat calls) ?m" and s: "sorted (keys ?m)" by simp_all
  have len: "length (keys ?m) = nat r * length (concat calls)" by (rule ring_inv_length[OF inv])
  have dis: "0 \<le> r \<and> distinct (concat calls) \<longrightarrow>
          int (length (keys ?m)) = r * int (card (set (concat calls)))"
  proof
    assume a: "0 \<le> r \<and> distinct (concat calls)"
    then have "card (set (concat calls)) = length (concat calls)" by (intro distinct_card) blast
    then show "int (length (keys ?m)) = r * int (card (set (concat calls)))"
      using len a by simp
  qed
  have det: "\<forall>calls'. set (concat calls') = set (concat calls) \<and>
           (\<forall>a\<in>set (concat calls). \<forall>b\<in>set (concat calls). \<forall>i<nat r. \<forall>j<nat r.
               vhash ?hf a i = vhash ?hf b j \<longrightarrow> a = b) \<longrightarrow>
           (\<forall>k. Map_Get (ring_of crc r fn calls') k = Map_Get ?m k)"
  proof (intro allI impI)
    fix calls' k
    assume a: "set (concat calls') = set (concat calls) \<and>
           (\<forall>a\<in>set (concat calls). \<forall>b\<in>set (concat calls). \<forall>i<nat r. \<forall>j<nat r.
               vhash ?hf a i = vhash ?hf b j \<longrightarrow> a = b)"
    from ring_of_inv[where fn=fn and crc=crc and r=r and calls=calls']
    have inv': "ring_inv ?hf r (concat calls') (ring_of crc r fn calls')"
      and s': "sorted (keys (ring_of crc r fn calls'))" by simp_all
    from a have same: "set (concat calls) = set (concat calls')" by simp
    from a have inj: "\<forall>a\<in>set (concat calls). \<forall>b\<in>set (concat calls). \<forall>i<nat r. \<forall>j<nat r.
               vhash ?hf a i = vhash ?hf b j \<longrightarrow> a = b" by simp
    from Get_node_set[OF inv s inv' s' same inj, of k]
    show "Map_Get (ring_of crc r fn calls') k = Map_Get ?m k" by simp
  qed
  show ?thesis unfolding Let_def
    by (intro conjI) (rule s len dis det)+
qed

theorem C9_ring_size_witness:
  "int (length (keys (ring_of (\<lambda>_. 0) 3 (Some parse_hash) [[''2'', ''4''], [''6'']]))) = 3 * 3 \<and>
   (\<forall>k. Map_Get (ring_of (\<lambda>_. 0) 3 (Some parse_hash) [[''6'', ''4'', ''2'', ''4'']]) k =
        Map_Get (ring_of (\<lambda>_. 0) 3 (Some parse_hash) [[''2'', ''4''], [''6'']]) k)"
proof -
  let ?calls = "[[''2'', ''4''], [''6'']]"
  let ?calls' = "[[''6'', ''4'', ''2'', ''4'']]"
  have d: "(0::int) \<le> 3 \<and> distinct (concat ?calls)" by simp
  have c: "card (set (concat ?calls)) = 3" by simp
  have same: "set (concat ?calls') = set (concat ?calls)" by auto
  have v: "vhash parse_hash ''2'' 0 = 2" "vhash parse_hash ''2'' 1 = 12" "vhash parse_hash ''2'' 2 = 22"
    "vhash parse_hash ''4'' 0 = 4" "vhash parse_hash ''4'' 1 = 14" "vhash parse_hash ''4'' 2 = 24"
    "vhash parse_hash ''6'' 0 = 6" "vhash parse_hash ''6'' 1 = 16" "vhash parse_hash ''6'' 2 = 26"
    by (simp_all add: vhash_def Itoa_def parse_hash_def digit_val_def)
  have n3: "nat 3 = Suc (Suc (Suc 0))" by simp
  have inj: "\<forall>a\<in>set (concat ?calls). \<forall>b\<in>set (concat ?calls).
      \<forall>i<nat 3. \<forall>j<nat 3. vhash parse_hash a i = vhash parse_hash b j \<longrightarrow> a = b"
    unfolding n3 All_less_Suc using v by (simp add: numeral_2_eq_2)
  note t = C9_ring_size[of "\<lambda>_. 0" 3 "Some parse_hash" ?calls, unfolded Let_def option.case]
  have A: "int (length (keys (ring_of (\<lambda>_. 0) 3 (Some parse_hash) ?calls))) =
      3 * int (card (set (concat ?calls)))"
    using t d by blast
  have B: "\<forall>k. Map_Get (ring_of (\<lambda>_. 0) 3 (Some parse_hash) ?calls') k =
        Map_Get (ring_of (\<lambda>_. 0) 3 (Some parse_hash) ?calls) k"
    using t same inj by blast
  show ?thesis using A B unfolding c by simp
qed

section \<open>Group: the get path\<close>

lemma evict_keeps_front:
  "lru_inv Len c \<Longrightarrow> ll c = p # rest \<Longrightarrow>
   maxBytes c = 0 \<or> cost Len (elems c ! p) <=s maxBytes c \<Longrightarrow>
   \<exists>c' rest'. Add_evict Len c = Some c' \<and> lru_inv Len c' \<and> maxBytes c' = maxBytes c \<and>
        ll c' = p # rest' \<and> elems c' = elems c"
proof (induction "length rest" arbitrary: c rest)
  case 0
  then have l: "ll c = [p]" by simp
  have nb: "nBytes c = cost Len (elems c ! p)" using 0(2) l by (simp add: lru_inv_def live_bytes_def)
  have "Add_evict Len c = Some c" using nb 0(4)
    by (subst Add_evict.simps) (auto simp: word_sle_eq word_sless_alt)
  then show ?case using 0 by simp
next
  case (Suc n)
  show ?case
  proof (cases "maxBytes c \<noteq> 0 \<and> maxBytes c <s nBytes c")
    case False
    then have "Add_evict Len c = Some c" by (subst Add_evict.simps) auto
    then show ?thesis using Suc.prems by simp
  next
    case True
    let ?r = "Cache_RemoveOldest Len c"
    have ne: "ll c \<noteq> []" using Suc.prems(2) by simp
    have rne: "rest \<noteq> []" using Suc.hyps(2) by auto
    have d: "distinct (ll c)" using Suc.prems(1) by (simp add: lru_inv_def)
    note f = RemoveOldest_fields[OF ne d, of Len]
    have step: "Add_evict Len c = Add_evict Len ?r" using True
      by (subst Add_evict.simps) simp
    have lr: "ll ?r = p # butlast rest" using Suc.prems(2) rne by (simp add: f)
    have len: "n = length (butlast rest)" using Suc.hyps(2) by simp
    have cap: "maxBytes ?r = 0 \<or> cost Len (elems ?r ! p) <=s maxBytes ?r"
      using Suc.prems(3) by (simp add: f)
    from Suc.hyps(1)[OF len inv_RemoveOldest[OF Suc.prems(1)] lr cap]
    show ?thesis using step by (simp add: f)
  qed
qed

lemma lengths_fit:
  assumes "int a + int b \<le> sint (M :: int64)"
  shows "(of_nat a + of_nat b :: int64) <=s M"
proof -
  have "sint M < 2 ^ 63" using sint_lt[of M] by simp
  then have "sint (of_int (int a + int b) :: int64) = int a + int b"
    using assms by (intro sint_of_int_range) simp_all
  then show ?thesis using assms by (simp add: word_sle_eq)
qed

lemma Add_keeps:
  assumes inv: "lru_inv Len c"
    and cap: "maxBytes c = 0 \<or> of_nat (length k) + Len v <=s maxBytes c"
  shows "\<exists>c'. Cache_Add Len c k v = Some c' \<and> lru_inv Len c' \<and> maxBytes c' = maxBytes c \<and>
           fst (Cache_Get c' k) = Some v"
proof -
  let ?u = "Add_upsert Len c k v"
  from upsert_front[OF inv, of k v] obtain p rest where
    l: "ll ?u = p # rest" and e: "elems ?u ! p = \<lparr>key = k, val = v\<rparr>" by blast
  have c: "maxBytes ?u = 0 \<or> cost Len (elems ?u ! p) <=s maxBytes ?u"
    using cap e by (simp add: cost_def upsert_maxBytes)
  from evict_keeps_front[OF inv_upsert[OF inv] l c] obtain c' rest' where
    a: "Add_evict Len ?u = Some c'" and i: "lru_inv Len c'" and m: "maxBytes c' = maxBytes c"
    and l': "ll c' = p # rest'" and e': "elems c' = elems ?u"
    by (auto simp: upsert_maxBytes)
  have "cache c' (key (elems c' ! p)) = Some p" using i l' by (simp add: lru_inv_def)
  then have "cache c' k = Some p" using e e' by simp
  then have "fst (Cache_Get c' k) = Some v" using e e' by (simp add: Cache_Get_def)
  then show ?thesis using a i m by (simp add: Cache_Add_def)
qed

lemma cloneBytes_id: "cloneBytes bs = bs"
  by (simp add: cloneBytes_def go_copy_def)

lemma cache_get_miss:
  assumes "fst (cache_get c k) = None"
  shows "cache_get c k = (None, c)"
proof (cases "lru c")
  case None
  then show ?thesis by (simp add: cache_get_def)
next
  case (Some l)
  with assms have "cache l k = None"
    by (auto simp: cache_get_def Cache_Get_def split: option.splits)
  then show ?thesis using Some by (simp add: cache_get_def Cache_Get_def)
qed

lemma cache_get_inv:
  assumes "group_inv g"
  shows "group_inv (g\<lparr>maincache := snd (cache_get (maincache g) k)\<rparr>)"
proof (cases "lru (maincache g)")
  case None
  then show ?thesis using assms by (simp add: group_inv_def cache_get_def)
next
  case (Some l)
  then have "lru_inv ByteView_Len l" "maxBytes l = cacheBytes (maincache g)"
    using assms by (simp_all add: group_inv_def)
  then show ?thesis using Some inv_Get[of ByteView_Len l k] Get_maxBytes[of l k]
    by (simp add: group_inv_def cache_get_def split_beta)
qed

lemma cache_add_keeps:
  assumes inv: "group_inv g"
    and cap: "cacheBytes (maincache g) = 0 \<or>
              int (length k) + int (length bs) \<le> sint (cacheBytes (maincache g))"
  shows "\<exists>c. cache_add (maincache g) k (ByteView bs) = Some c \<and>
             cacheBytes c = cacheBytes (maincache g) \<and>
             group_inv (g\<lparr>maincache := c\<rparr>) \<and>
             fst (cache_get c k) = Some (ByteView bs)"
proof -
  let ?l = "case lru (maincache g) of None \<Rightarrow> lru_New (cacheBytes (maincache g)) False | Some l \<Rightarrow> l"
  have li: "lru_inv ByteView_Len ?l" and lm: "maxBytes ?l = cacheBytes (maincache g)"
    using inv by (auto simp: group_inv_def inv_New New_fields split: option.splits)
  have c: "maxBytes ?l = 0 \<or> of_nat (length k) + ByteView_Len (ByteView bs) <=s maxBytes ?l"
    using cap lm by (auto simp: lengths_fit)
  from Add_keeps[OF li c] obtain l' where
    a: "Cache_Add ByteView_Len ?l k (ByteView bs) = Some l'" and i: "lru_inv ByteView_Len l'"
    and m: "maxBytes l' = maxBytes ?l" and g: "fst (Cache_Get l' k) = Some (ByteView bs)" by blast
  have "cache_add (maincache g) k (ByteView bs) = Some ((maincache g)\<lparr>lru := Some l'\<rparr>)"
    using a by (simp add: cache_add_def Let_def)
  moreover have "group_inv (g\<lparr>maincache := (maincache g)\<lparr>lru := Some l'\<rparr>\<rparr>)"
    using i m lm by (simp add: group_inv_def)
  moreover have "fst (cache_get ((maincache g)\<lparr>lru := Some l'\<rparr>) k) = Some (ByteView bs)"
    using g by (simp add: cache_get_def split_beta)
  ultimately show ?thesis by simp
qed

lemma cache_add_total:
  assumes inv: "group_inv g" and cap: "0 <=s cacheBytes (maincache g)"
  shows "\<exists>c. cache_add (maincache g) k v = Some c \<and> group_inv (g\<lparr>maincache := c\<rparr>)"
proof -
  let ?l = "case lru (maincache g) of None \<Rightarrow> lru_New (cacheBytes (maincache g)) False | Some l \<Rightarrow> l"
  have li: "lru_inv ByteView_Len ?l" and lm: "maxBytes ?l = cacheBytes (maincache g)"
    using inv by (auto simp: group_inv_def inv_New New_fields split: option.splits)
  have "0 <=s maxBytes (Add_upsert ByteView_Len ?l k v)" using cap lm by (simp add: upsert_maxBytes)
  from evict_total[OF inv_upsert[OF li] this] obtain l' where
    a: "Cache_Add ByteView_Len ?l k v = Some l'" and i: "lru_inv ByteView_Len l'"
    and m: "maxBytes l' = maxBytes ?l" by (auto simp: Cache_Add_def upsert_maxBytes)
  have "cache_add (maincache g) k v = Some ((maincache g)\<lparr>lru := Some l'\<rparr>)"
    using a by (simp add: cache_add_def Let_def)
  moreover have "group_inv (g\<lparr>maincache := (maincache g)\<lparr>lru := Some l'\<rparr>\<rparr>)"
    using i m lm by (simp add: group_inv_def)
  ultimately show ?thesis by simp
qed

lemma Group_Get_miss:
  assumes "fst (cache_get (maincache g) k) = None"
  shows "Group_Get g k = load g k"
  using cache_get_miss[OF assms] by (simp add: Group_Get_def)

lemma getLocally_fail:
  "getter g k = Inl e \<Longrightarrow> getLocally g k = Some (Inl e, g, [LoaderCall k])"
  by (simp add: getLocally_def)

lemma getLocally_keeps:
  assumes inv: "group_inv g" and ok: "getter g k = Inr bs"
    and cap: "cacheBytes (maincache g) = 0 \<or>
              int (length k) + int (length bs) \<le> sint (cacheBytes (maincache g))"
  shows "\<exists>g'. getLocally g k = Some (Inr (ByteView bs), g', [LoaderCall k]) \<and> group_inv g' \<and>
              fst (cache_get (maincache g') k) = Some (ByteView bs)"
proof -
  from cache_add_keeps[OF inv cap] obtain c where
    "cache_add (maincache g) k (ByteView bs) = Some c" "group_inv (g\<lparr>maincache := c\<rparr>)"
    "fst (cache_get c k) = Some (ByteView bs)" by blast
  then show ?thesis using ok
    by (simp add: getLocally_def populateCache_def cloneBytes_id)
qed

lemma getLocally_result:
  assumes "getLocally g k = Some (r, g', evs)"
  shows "r = (case getter g k of Inl e \<Rightarrow> Inl e | Inr bs \<Rightarrow> Inr (ByteView bs)) \<and> evs = [LoaderCall k]"
  using assms
  by (auto simp: getLocally_def populateCache_def cloneBytes_id Let_def split: sum.splits option.splits)

lemma getLocally_total:
  assumes inv: "group_inv g" and cap: "0 <=s cacheBytes (maincache g)"
  shows "getLocally g k \<noteq> None"
proof (cases "getter g k")
  case (Inl e)
  then show ?thesis by (simp add: getLocally_def)
next
  case (Inr bs)
  from cache_add_total[OF inv cap, of k "ByteView (cloneBytes bs)"] obtain c where
    "cache_add (maincache g) k (ByteView (cloneBytes bs)) = Some c" by blast
  then show ?thesis using Inr by (simp add: getLocally_def populateCache_def)
qed

lemma load_no_remote:
  assumes "\<forall>v. peer_answer g k \<noteq> Some (Inr v)"
  shows "load g k = getLocally g k \<or>
         load g k = after_fetch (PeerFetch (name g) k) (getLocally g k)"
  using assms
  by (auto simp: load_def peer_answer_def split: option.splits sum.splits)

text \<open>
  C5, as stated, fails for a namespace with a remote peer that serves the key: the loader
  of \<open>main.go\<close> succeeds on "Tom" and the capacity 2048 is ample, but the first \<open>Get\<close>
  returns the peer's bytes, calls the loader not once but never, and leaves the store as
  it was (not even created).
\<close>

theorem C5_cache_then_reuse_counterexample:
  "main_getter ''Tom'' = Inr ''630'' \<and>
   int (length ''Tom'') + int (length ''630'') \<le> sint (2048 :: int64) \<and>
   Group_Get \<lparr>name = ''score'', maincache = \<lparr>lru = None, cacheBytes = 2048\<rparr>, getter = main_getter,
              peers = Some answering_picker\<rparr> ''Tom'' =
     Some (Inr (ByteView ''630''),
           \<lparr>name = ''score'', maincache = \<lparr>lru = None, cacheBytes = 2048\<rparr>, getter = main_getter,
              peers = Some answering_picker\<rparr>,
           [PeerFetch ''score'' ''Tom''])"
  by (simp add: main_getter_def db_def Group_Get_def cache_get_def load_def getFromPeer_def cloneBytes_id
        answering_picker_def answering_peer_def)

text \<open>
  C5 (cache then reuse), amended.  Take a namespace in a state its operations produce, a
  key that is not in its store, and suppose no remote peer serves the key (no picker is
  registered, the picker names no remote peer, or the fetch from the peer fails).  If the
  loader succeeds on the key and the capacity is 0 (unbounded) or at least the key length
  plus the value length, then \<open>Get\<close> calls the loader exactly once, stores the value and
  returns it, and the next \<open>Get\<close> of the key returns the same value and calls neither the
  loader nor a peer.  If the loader fails on the key, \<open>Get\<close> returns the loader's error,
  after exactly one call of the loader, and leaves the namespace as it was.
\<close>

theorem C5_cache_then_reuse:
  assumes inv: "group_inv g"
    and miss: "fst (cache_get (maincache g) k) = None"
    and local: "\<forall>v. peer_answer g k \<noteq> Some (Inr v)"
  shows "(\<forall>bs. getter g k = Inr bs \<and>
             (cacheBytes (maincache g) = 0 \<or>
              int (length k) + int (length bs) \<le> sint (cacheBytes (maincache g))) \<longrightarrow>
           (\<exists>g1 evs. Group_Get g k = Some (Inr (ByteView bs), g1, evs) \<and>
                filter is_LoaderCall evs = [LoaderCall k] \<and>
                fst (cache_get (maincache g1) k) = Some (ByteView bs) \<and>
                group_inv g1 \<and>
                (\<exists>g2. Group_Get g1 k = Some (Inr (ByteView bs), g2, [])))) \<and>
         (\<forall>e. getter g k = Inl e \<longrightarrow>
           (\<exists>evs. Group_Get g k = Some (Inl e, g, evs) \<and>
                filter is_LoaderCall evs = [LoaderCall k]))"
proof (intro conjI allI impI)
  fix bs
  assume a: "getter g k = Inr bs \<and>
             (cacheBytes (maincache g) = 0 \<or>
              int (length k) + int (length bs) \<le> sint (cacheBytes (maincache g)))"
  from getLocally_keeps[OF inv] a obtain g1 where
    l: "getLocally g k = Some (Inr (ByteView bs), g1, [LoaderCall k])" and i: "group_inv g1"
    and h: "fst (cache_get (maincache g1) k) = Some (ByteView bs)" by blast
  from load_no_remote[OF local] l obtain evs where
    "load g k = Some (Inr (ByteView bs), g1, evs)" "filter is_LoaderCall evs = [LoaderCall k]"
    by (auto simp: after_fetch_def)
  moreover have "\<exists>g2. Group_Get g1 k = Some (Inr (ByteView bs), g2, [])"
    using h by (simp add: Group_Get_def split_beta split: option.splits prod.splits)
  ultimately show "\<exists>g1 evs. Group_Get g k = Some (Inr (ByteView bs), g1, evs) \<and>
                filter is_LoaderCall evs = [LoaderCall k] \<and>
                fst (cache_get (maincache g1) k) = Some (ByteView bs) \<and>
                group_inv g1 \<and>
                (\<exists>g2. Group_Get g1 k = Some (Inr (ByteView bs), g2, []))"
    using i h Group_Get_miss[OF miss] by auto
next
  fix e assume "getter g k = Inl e"
  from getLocally_fail[OF this] load_no_remote[OF local]
  show "\<exists>evs. Group_Get g k = Some (Inl e, g, evs) \<and> filter is_LoaderCall evs = [LoaderCall k]"
    using Group_Get_miss[OF miss] by (auto simp: after_fetch_def)
qed

lemma NewGroup_inv:
  "NewGroup groups nm cb (Some gt) = Inr (g, groups') \<Longrightarrow> group_inv g"
  by (auto simp: NewGroup_def group_inv_def Let_def)

lemma set_MoveToFront: "set (MoveToFront e l) = set l"
proof (cases "e \<in> set l")
  case True
  have "\<And>x. x \<in> set (e # remove1 e l) \<longleftrightarrow> x \<in> set l"
  proof -
    fix x show "x \<in> set (e # remove1 e l) \<longleftrightarrow> x \<in> set l"
      using True by (cases "x = e") (simp_all add: in_set_remove1)
  qed
  then show ?thesis using True by (auto simp: MoveToFront_def)
next
  case False
  then show ?thesis by (simp add: MoveToFront_def)
qed

lemma cache_add_inv:
  assumes inv: "group_inv g" and a: "cache_add (maincache g) k v = Some c"
  shows "group_inv (g\<lparr>maincache := c\<rparr>)"
proof -
  let ?l = "case lru (maincache g) of None \<Rightarrow> lru_New (cacheBytes (maincache g)) False | Some l \<Rightarrow> l"
  have li: "lru_inv ByteView_Len ?l" and lm: "maxBytes ?l = cacheBytes (maincache g)"
    using inv by (auto simp: group_inv_def inv_New New_fields split: option.splits)
  from a obtain l' where e: "Add_evict ByteView_Len (Add_upsert ByteView_Len ?l k v) = Some l'"
    and c: "c = (maincache g)\<lparr>lru := Some l'\<rparr>"
    by (auto simp: cache_add_def Cache_Add_def Let_def split: option.splits)
  from evict_inv[OF e] inv_upsert[OF li, of k v] have "lru_inv ByteView_Len l'" "maxBytes l' = maxBytes ?l"
    by (simp_all add: upsert_maxBytes)
  then show ?thesis using c lm by (simp add: group_inv_def)
qed

lemma getLocally_inv:
  assumes inv: "group_inv g" and r: "getLocally g k = Some (x, g', evs)"
  shows "group_inv g'"
proof (cases "getter g k")
  case (Inl e)
  then show ?thesis using inv r by (simp add: getLocally_def)
next
  case (Inr bs)
  then obtain c where "cache_add (maincache g) k (ByteView (cloneBytes bs)) = Some c"
    "g' = g\<lparr>maincache := c\<rparr>"
    using r by (auto simp: getLocally_def populateCache_def Let_def split: option.splits)
  then show ?thesis using cache_add_inv[OF inv] by simp
qed

lemma load_inv:
  assumes inv: "group_inv g" and r: "load g k = Some (x, g', evs)"
  shows "group_inv g'"
proof -
  from r consider "g' = g" | evs0 where "getLocally g k = Some (x, g', evs0)"
    by (auto simp: load_def after_fetch_def split: option.splits sum.splits)
  then show ?thesis
  proof cases
    case 1
    then show ?thesis using inv by simp
  next
    case 2
    then show ?thesis by (rule getLocally_inv[OF inv])
  qed
qed

lemma Group_Get_inv:
  assumes inv: "group_inv g" and r: "Group_Get g k = Some (x, g', evs)"
  shows "group_inv g'"
proof (cases "fst (cache_get (maincache g) k)")
  case None
  then show ?thesis using r Group_Get_miss[OF None] load_inv[OF inv] by simp
next
  case (Some v)
  then have "g' = g\<lparr>maincache := snd (cache_get (maincache g) k)\<rparr>"
    using r by (auto simp: Group_Get_def split: prod.splits)
  then show ?thesis using cache_get_inv[OF inv] by simp
qed

theorem C5_cache_then_reuse_witness:
  "\<exists>g0 groups g1 evs g2 evs'.
     NewGroup Map.empty ''score'' 2048 (Some main_getter) = Inr (g0, groups) \<and>
     Group_Get g0 ''Tom'' = Some (Inr (ByteView ''630''), g1, evs) \<and>
     filter is_LoaderCall evs = [LoaderCall ''Tom''] \<and>
     Group_Get g1 ''Tom'' = Some (Inr (ByteView ''630''), g2, []) \<and>
     Group_Get g0 ''Unknown'' = Some (Inl (Error ''key Unknown not exist''), g0, evs')"
proof -
  let ?g = "\<lparr>name = ''score'', maincache = \<lparr>lru = None, cacheBytes = 2048\<rparr>,
             getter = main_getter, peers = None\<rparr>"
  have n: "NewGroup Map.empty ''score'' 2048 (Some main_getter) = Inr (?g, [''score'' \<mapsto> ?g])"
    by (simp add: NewGroup_def Let_def)
  have i: "group_inv ?g" by (simp add: group_inv_def)
  have m: "fst (cache_get (maincache ?g) ''Tom'') = None"
    "fst (cache_get (maincache ?g) ''Unknown'') = None" by (simp_all add: cache_get_def)
  have p: "\<forall>v. peer_answer ?g ''Tom'' \<noteq> Some (Inr v)" "\<forall>v. peer_answer ?g ''Unknown'' \<noteq> Some (Inr v)"
    by (simp_all add: peer_answer_def)
  have t: "getter ?g ''Tom'' = Inr ''630'' \<and>
      (cacheBytes (maincache ?g) = 0 \<or>
       int (length ''Tom'') + int (length ''630'') \<le> sint (cacheBytes (maincache ?g)))"
    by (simp add: main_getter_def db_def)
  have u: "getter ?g ''Unknown'' = Inl (Error ''key Unknown not exist'')"
    by (simp add: main_getter_def db_def)
  from C5_cache_then_reuse[OF i m(1) p(1)] t obtain g1 evs g2 where
    a: "Group_Get ?g ''Tom'' = Some (Inr (ByteView ''630''), g1, evs)"
      "filter is_LoaderCall evs = [LoaderCall ''Tom'']"
      "Group_Get g1 ''Tom'' = Some (Inr (ByteView ''630''), g2, [])" by blast
  from C5_cache_then_reuse[OF i m(2) p(2)] u obtain evs' where
    b: "Group_Get ?g ''Unknown'' = Some (Inl (Error ''key Unknown not exist''), ?g, evs')" by blast
  show ?thesis using n a b by blast
qed

lemma httpGetter_Get_fails:
  assumes "case http_Get (baseURL @ QueryEscape grp @ ''/'' @ QueryEscape k) of
             Inl err \<Rightarrow> True | Inr (code, rd) \<Rightarrow> code \<noteq> 200"
  shows "\<exists>perr. httpGetter_Get QueryEscape http_Get baseURL grp k = Inl perr"
  using assms by (auto simp: httpGetter_Get_def Let_def split: sum.splits prod.splits)

text \<open>
  C6 (peer fallback).  When the key is not in the store, a remote peer is picked and the
  fetch from it fails, \<open>Get\<close> does what the local load does and only adds the fetch to
  the events: whatever it returns is the loader's value or the loader's own error, after
  one fetch and one loader call, and never the peer's error.  It returns whenever the
  namespace is in a state its operations produce and its capacity is not negative.  The
  fetch of the HTTP client fails in this sense on a network error and on a status other
  than 200.
\<close>

theorem C6_peer_fallback:
  assumes miss: "fst (cache_get (maincache g) k) = None"
    and picks: "peers g = Some picker" "picker k = Some peer"
    and fails: "peer (name g) k = Inl perr"
  shows "Group_Get g k = after_fetch (PeerFetch (name g) k) (getLocally g k) \<and>
         (\<forall>r g' evs. Group_Get g k = Some (r, g', evs) \<longrightarrow>
            r = (case getter g k of Inl e \<Rightarrow> Inl e | Inr bs \<Rightarrow> Inr (ByteView bs)) \<and>
            evs = [PeerFetch (name g) k, LoaderCall k]) \<and>
         (group_inv g \<and> 0 <=s cacheBytes (maincache g) \<longrightarrow> Group_Get g k \<noteq> None) \<and>
         (\<forall>QueryEscape http_Get baseURL.
            (case http_Get (baseURL @ QueryEscape (name g) @ ''/'' @ QueryEscape k) of
               Inl err \<Rightarrow> True | Inr (code, rd) \<Rightarrow> code \<noteq> 200) \<longrightarrow>
            (\<exists>e. httpGetter_Get QueryEscape http_Get baseURL (name g) k = Inl e))"
proof -
  have eq: "Group_Get g k = after_fetch (PeerFetch (name g) k) (getLocally g k)"
    using Group_Get_miss[OF miss] picks fails by (simp add: load_def getFromPeer_def)
  have res: "\<forall>r g' evs. Group_Get g k = Some (r, g', evs) \<longrightarrow>
            r = (case getter g k of Inl e \<Rightarrow> Inl e | Inr bs \<Rightarrow> Inr (ByteView bs)) \<and>
            evs = [PeerFetch (name g) k, LoaderCall k]"
  proof (intro allI impI)
    fix r g' evs assume "Group_Get g k = Some (r, g', evs)"
    then obtain evs0 where "getLocally g k = Some (r, g', evs0)" "evs = PeerFetch (name g) k # evs0"
      unfolding eq by (auto simp: after_fetch_def split: option.splits)
    then show "r = (case getter g k of Inl e \<Rightarrow> Inl e | Inr bs \<Rightarrow> Inr (ByteView bs)) \<and>
            evs = [PeerFetch (name g) k, LoaderCall k]"
      using getLocally_result[of g k r g' evs0] by simp
  qed
  have tot: "group_inv g \<and> 0 <=s cacheBytes (maincache g) \<longrightarrow> Group_Get g k \<noteq> None"
    using getLocally_total[of g k] unfolding eq by (auto simp: after_fetch_def split: option.splits)
  have http: "\<forall>QueryEscape http_Get baseURL.
            (case http_Get (baseURL @ QueryEscape (name g) @ ''/'' @ QueryEscape k) of
               Inl err \<Rightarrow> True | Inr (code, rd) \<Rightarrow> code \<noteq> 200) \<longrightarrow>
            (\<exists>e. httpGetter_Get QueryEscape http_Get baseURL (name g) k = Inl e)"
    using httpGetter_Get_fails by blast
  show ?thesis using eq res tot http by blast
qed

theorem C6_peer_fallback_witness:
  "\<exists>g'. Group_Get \<lparr>name = ''score'', maincache = \<lparr>lru = None, cacheBytes = 2048\<rparr>,
               getter = main_getter,
               peers = Some (\<lambda>k. Some (\<lambda>grp k. Inl (Error ''connection refused'')))\<rparr> ''Tom'' =
     Some (Inr (ByteView ''630''), g', [PeerFetch ''score'' ''Tom'', LoaderCall ''Tom''])"
proof -
  let ?g = "\<lparr>name = ''score'', maincache = \<lparr>lru = None, cacheBytes = 2048\<rparr>,
               getter = main_getter,
               peers = Some (\<lambda>k. Some (\<lambda>grp k. Inl (Error ''connection refused'')))\<rparr>"
  have m: "fst (cache_get (maincache ?g) ''Tom'') = None" by (simp add: cache_get_def)
  have p: "peers ?g = Some (\<lambda>k. Some (\<lambda>grp k. Inl (Error ''connection refused'')))"
    "(\<lambda>k. Some (\<lambda>grp k. Inl (Error ''connection refused''))) ''Tom'' =
       Some (\<lambda>grp k. Inl (Error ''connection refused''))"
    "(\<lambda>grp k. Inl (Error ''connection refused'')) (name ?g) ''Tom'' =
       (Inl (Error ''connection refused'') :: error + bytes)"
    by simp_all
  have i: "group_inv ?g \<and> 0 <=s cacheBytes (maincache ?g)" by (simp add: group_inv_def word_sle_eq)
  have gt: "getter ?g ''Tom'' = Inr ''630''" by (simp add: main_getter_def db_def)
  note t = C6_peer_fallback[OF m p]
  note res = t[THEN conjunct2, THEN conjunct1]
  note tot = t[THEN conjunct2, THEN conjunct2, THEN conjunct1]
  from tot i have "Group_Get ?g ''Tom'' \<noteq> None" by (rule mp)
  then obtain r g' evs where s: "Group_Get ?g ''Tom'' = Some (r, g', evs)"
    by (cases "Group_Get ?g ''Tom''") auto
  from res[rule_format, OF s]
  have "r = (case getter ?g ''Tom'' of Inl e \<Rightarrow> Inl e | Inr bs \<Rightarrow> Inr (ByteView bs))"
    "evs = [PeerFetch (name ?g) ''Tom'', LoaderCall ''Tom'']" by simp_all
  then show ?thesis using s gt by simp
qed

text \<open>
  C7 (remote values are not cached).  When the key is not in the store, a remote peer is
  picked and the fetch succeeds, \<open>Get\<close> returns the fetched bytes as a \<open>ByteView\<close> and
  the namespace is exactly as before: same entries, same byte count, same recency order;
  the only event is the fetch.  More generally a \<open>Get\<close> that does not call the loader
  leaves the entries and the byte count of the store as they were.
\<close>

theorem C7_remote_fetch_not_cached:
  "(fst (cache_get (maincache g) k) = None \<and> peers g = Some picker \<and> picker k = Some peer \<and>
    peer (name g) k = Inr bs \<longrightarrow>
      Group_Get g k = Some (Inr (ByteView bs), g, [PeerFetch (name g) k])) \<and>
   (\<forall>r g' evs. Group_Get g k = Some (r, g', evs) \<and> LoaderCall k \<notin> set evs \<longrightarrow>
      live_entries g' = live_entries g \<and>
      map_option nBytes (lru (maincache g')) = map_option nBytes (lru (maincache g)))"
proof (intro conjI allI impI)
  assume a: "fst (cache_get (maincache g) k) = None \<and> peers g = Some picker \<and> picker k = Some peer \<and>
    peer (name g) k = Inr bs"
  then show "Group_Get g k = Some (Inr (ByteView bs), g, [PeerFetch (name g) k])"
    using Group_Get_miss[of g k] by (simp add: load_def getFromPeer_def cloneBytes_id)
next
  fix r g' evs
  assume a: "Group_Get g k = Some (r, g', evs) \<and> LoaderCall k \<notin> set evs"
  have "g' = g\<lparr>maincache := snd (cache_get (maincache g) k)\<rparr>"
  proof (cases "fst (cache_get (maincache g) k)")
    case (Some v)
    then show ?thesis using a by (auto simp: Group_Get_def split: prod.splits)
  next
    case None
    note m = cache_get_miss[OF None]
    have "load g k = Some (r, g', evs)" using a Group_Get_miss[OF None] by simp
    then have "g' = g" using a
      by (auto simp: load_def getLocally_def after_fetch_def Let_def
               split: option.splits sum.splits)
    then show ?thesis using m by simp
  qed
  moreover have "live_entries (g\<lparr>maincache := snd (cache_get (maincache g) k)\<rparr>) = live_entries g"
    by (simp add: live_entries_def cache_get_def Cache_Get_def set_MoveToFront split: option.splits)
  moreover have "map_option nBytes (lru (maincache (g\<lparr>maincache := snd (cache_get (maincache g) k)\<rparr>))) =
      map_option nBytes (lru (maincache g))"
    by (auto simp: cache_get_def Cache_Get_def split: option.splits)
  ultimately show "live_entries g' = live_entries g"
    "map_option nBytes (lru (maincache g')) = map_option nBytes (lru (maincache g))" by simp_all
qed

theorem C7_remote_fetch_not_cached_witness:
  "Group_Get \<lparr>name = ''score'', maincache = \<lparr>lru = None, cacheBytes = 2048\<rparr>, getter = main_getter,
              peers = Some (\<lambda>k. Some (\<lambda>grp k. Inr ''589''))\<rparr> ''Jack'' =
     Some (Inr (ByteView ''589''),
           \<lparr>name = ''score'', maincache = \<lparr>lru = None, cacheBytes = 2048\<rparr>, getter = main_getter,
              peers = Some (\<lambda>k. Some (\<lambda>grp k. Inr ''589''))\<rparr>,
           [PeerFetch ''score'' ''Jack''])"
proof -
  let ?g = "\<lparr>name = ''score'', maincache = \<lparr>lru = None, cacheBytes = 2048\<rparr>, getter = main_getter,
              peers = Some (\<lambda>k. Some (\<lambda>grp k. Inr ''589''))\<rparr>"
  have m: "fst (cache_get (maincache ?g) ''Jack'') = None" by (simp add: cache_get_def)
  from C7_remote_fetch_not_cached[of ?g "''Jack''" "\<lambda>k. Some (\<lambda>grp k. Inr ''589'')"
      "\<lambda>grp k. Inr ''589''" "''589''"] m
  show ?thesis by simp
qed

section \<open>The HTTP pool: serving a request\<close>

lemma Index_slash:
  "Index s ''/'' =
     (if CHR ''/'' \<in> set s then Some (length (takeWhile (\<lambda>ch. ch \<noteq> CHR ''/'') s)) else None)"
  by (induction s) auto

lemma SplitN_slash_2:
  "SplitN s ''/'' 2 =
     (if CHR ''/'' \<in> set s
      then [takeWhile (\<lambda>ch. ch \<noteq> CHR ''/'') s, tl (dropWhile (\<lambda>ch. ch \<noteq> CHR ''/'') s)]
      else [s])"
proof -
  have two: "(2::nat) = Suc (Suc 0)" by simp
  show ?thesis unfolding two
    by (simp add: Index_slash takeWhile_eq_take[symmetric] dropWhile_eq_drop drop_Suc tl_drop)
qed

lemma Group_Get_Inl:
  assumes "Group_Get g k = Some (Inl e, g', evs)"
  shows "getter g k = Inl e \<and> LoaderCall k \<in> set evs"
proof -
  have l: "load (g\<lparr>maincache := snd (cache_get (maincache g) k)\<rparr>) k = Some (Inl e, g', evs)"
    using assms by (auto simp: Group_Get_def split: prod.splits option.splits)
  then have "\<exists>evs0. getLocally (g\<lparr>maincache := snd (cache_get (maincache g) k)\<rparr>) k = Some (Inl e, g', evs0) \<and>
    set evs0 \<subseteq> set evs"
    by (auto simp: load_def after_fetch_def getFromPeer_def split: option.splits sum.splits)
  then obtain evs0 where "getLocally (g\<lparr>maincache := snd (cache_get (maincache g) k)\<rparr>) k = Some (Inl e, g', evs0)"
    "set evs0 \<subseteq> set evs" by blast
  then show ?thesis
    using getLocally_result[of "g\<lparr>maincache := snd (cache_get (maincache g) k)\<rparr>" k "Inl e" g' evs0]
    by (auto split: sum.splits)
qed


text \<open>
  C8, as stated, fails: the remainder "score/Tom/x" has three segments, not two, yet the
  handler does not answer 400.  It looks up the key "Tom/x" in the namespace "score", and
  with the loader of \<open>main.go\<close> answers 500 with that loader's message.
\<close>

theorem C8_serve_http_counterexample:
  "path_segments ''score/Tom/x'' = [''score'', ''Tom'', ''x''] \<and>
   ServeHTTP (NewHTTPPool ''localhost:8001'')
     [''score'' \<mapsto> \<lparr>name = ''score'', maincache = \<lparr>lru = None, cacheBytes = 2048\<rparr>,
                      getter = main_getter, peers = None\<rparr>]
     ''/_geecache/score/Tom/x'' =
   Some (Inr (http_Error ''key Tom/x not exist'' 500,
     [''score'' \<mapsto> \<lparr>name = ''score'', maincache = \<lparr>lru = None, cacheBytes = 2048\<rparr>,
                      getter = main_getter, peers = None\<rparr>]))"
  by (simp add: path_segments_def ServeHTTP_def NewHTTPPool_def defaultBasePath_def HasPrefix_def
        SplitN_slash_2 GetGroup_def Group_Get_def cache_get_def load_def getLocally_def
        main_getter_def db_def Let_def)

text \<open>
  C8 (peer protocol server), amended.  For a request path that starts with the prefix, let
  the remainder be what follows the prefix.  The handler never panics.  It answers 400
  exactly when the remainder has no slash.  Otherwise the namespace is the text before the
  first slash and the key is everything after it, further slashes included; the handler
  answers 404 exactly when no namespace of that name is registered, 500 exactly when the
  namespace's \<open>Get\<close> of the key returns an error (which is then the loader's error), and
  200 exactly when it returns a value, with the header \<open>Content-Type:
  application/octet-stream\<close> and the value's bytes as the whole body.  When the \<open>Get\<close>
  does not return, neither does the handler.
\<close>

theorem C8_serve_http:
  assumes "HasPrefix path (basePath h)"
  defines "rest \<equiv> drop (length (basePath h)) path"
  defines "groupName \<equiv> takeWhile (\<lambda>ch. ch \<noteq> CHR ''/'') rest"
  defines "k \<equiv> tl (dropWhile (\<lambda>ch. ch \<noteq> CHR ''/'') rest)"
  shows
    "(CHR ''/'' \<notin> set rest \<longrightarrow>
        ServeHTTP h groups path = Some (Inr (http_Error ''bad request'' 400, groups))) \<and>
     (CHR ''/'' \<in> set rest \<and> groups groupName = None \<longrightarrow>
        ServeHTTP h groups path =
          Some (Inr (http_Error (''no such group: '' @ groupName) 404, groups))) \<and>
     (\<forall>grp. CHR ''/'' \<in> set rest \<and> groups groupName = Some grp \<longrightarrow>
        (Group_Get grp k = None \<longrightarrow> ServeHTTP h groups path = None) \<and>
        (\<forall>err grp' evs. Group_Get grp k = Some (Inl err, grp', evs) \<longrightarrow>
           getter grp k = Inl err \<and>
           ServeHTTP h groups path =
             Some (Inr (http_Error (error_Error err) 500, groups(groupName \<mapsto> grp')))) \<and>
        (\<forall>bs grp' evs. Group_Get grp k = Some (Inr (ByteView bs), grp', evs) \<longrightarrow>
           ServeHTTP h groups path =
             Some (Inr (\<lparr>status = 200,
                         header = [''Content-Type'' \<mapsto> ''application/octet-stream''],
                         body = bs\<rparr>,
                        groups(groupName \<mapsto> grp'))))) \<and>
     (\<forall>resp groups'. ServeHTTP h groups path = Some (Inr (resp, groups')) \<longrightarrow>
        (status resp = 400 \<longleftrightarrow> CHR ''/'' \<notin> set rest) \<and>
        (status resp = 404 \<longleftrightarrow> CHR ''/'' \<in> set rest \<and> groups groupName = None) \<and>
        (status resp = 500 \<longleftrightarrow>
           CHR ''/'' \<in> set rest \<and>
           (\<exists>grp err grp' evs. groups groupName = Some grp \<and>
              Group_Get grp k = Some (Inl err, grp', evs))) \<and>
        (status resp = 200 \<longleftrightarrow>
           CHR ''/'' \<in> set rest \<and>
           (\<exists>grp bs grp' evs. groups groupName = Some grp \<and>
              Group_Get grp k = Some (Inr (ByteView bs), grp', evs) \<and>
              header resp ''Content-Type'' = Some ''application/octet-stream'' \<and>
              body resp = bs)) \<and>
        status resp \<in> {200, 400, 404, 500}) \<and>
     (\<forall>msg. ServeHTTP h groups path \<noteq> Some (Inl msg))"
proof -
  have parts: "SplitN (drop (length (basePath h)) path) ''/'' 2 =
      (if CHR ''/'' \<in> set rest then [groupName, k] else [rest])"
    unfolding rest_def groupName_def k_def by (rule SplitN_slash_2)
  have c1: "CHR ''/'' \<notin> set rest \<longrightarrow>
        ServeHTTP h groups path = Some (Inr (http_Error ''bad request'' 400, groups))"
    using assms(1) by (simp add: ServeHTTP_def parts)
  have c2: "CHR ''/'' \<in> set rest \<and> groups groupName = None \<longrightarrow>
        ServeHTTP h groups path =
          Some (Inr (http_Error (''no such group: '' @ groupName) 404, groups))"
    using assms(1) by (simp add: ServeHTTP_def parts GetGroup_def)
  have c3: "\<forall>grp. CHR ''/'' \<in> set rest \<and> groups groupName = Some grp \<longrightarrow>
        (Group_Get grp k = None \<longrightarrow> ServeHTTP h groups path = None) \<and>
        (\<forall>err grp' evs. Group_Get grp k = Some (Inl err, grp', evs) \<longrightarrow>
           getter grp k = Inl err \<and>
           ServeHTTP h groups path =
             Some (Inr (http_Error (error_Error err) 500, groups(groupName \<mapsto> grp')))) \<and>
        (\<forall>bs grp' evs. Group_Get grp k = Some (Inr (ByteView bs), grp', evs) \<longrightarrow>
           ServeHTTP h groups path =
             Some (Inr (\<lparr>status = 200,
                         header = [''Content-Type'' \<mapsto> ''application/octet-stream''],
                         body = bs\<rparr>,
                        groups(groupName \<mapsto> grp'))))"
  proof (intro allI impI conjI)
    fix grp assume a: "CHR ''/'' \<in> set rest \<and> groups groupName = Some grp"
    {
      assume "Group_Get grp k = None"
      then show "ServeHTTP h groups path = None"
        using assms(1) a by (simp add: ServeHTTP_def parts GetGroup_def)
    }
    {
      fix err grp' evs assume g: "Group_Get grp k = Some (Inl err, grp', evs)"
      then show "getter grp k = Inl err" using Group_Get_Inl by blast
      show "ServeHTTP h groups path =
             Some (Inr (http_Error (error_Error err) 500, groups(groupName \<mapsto> grp')))"
        using assms(1) a g by (simp add: ServeHTTP_def parts GetGroup_def)
    }
    {
      fix bs grp' evs assume g: "Group_Get grp k = Some (Inr (ByteView bs), grp', evs)"
      show "ServeHTTP h groups path =
             Some (Inr (\<lparr>status = 200,
                         header = [''Content-Type'' \<mapsto> ''application/octet-stream''],
                         body = bs\<rparr>,
                        groups(groupName \<mapsto> grp')))"
        using assms(1) a g by (simp add: ServeHTTP_def parts GetGroup_def cloneBytes_id)
    }
  qed
  have c4: "\<forall>resp groups'. ServeHTTP h groups path = Some (Inr (resp, groups')) \<longrightarrow>
        (status resp = 400 \<longleftrightarrow> CHR ''/'' \<notin> set rest) \<and>
        (status resp = 404 \<longleftrightarrow> CHR ''/'' \<in> set rest \<and> groups groupName = None) \<and>
        (status resp = 500 \<longleftrightarrow>
           CHR ''/'' \<in> set rest \<and>
           (\<exists>grp err grp' evs. groups groupName = Some grp \<and>
              Group_Get grp k = Some (Inl err, grp', evs))) \<and>
        (status resp = 200 \<longleftrightarrow>
           CHR ''/'' \<in> set rest \<and>
           (\<exists>grp bs grp' evs. groups groupName = Some grp \<and>
              Group_Get grp k = Some (Inr (ByteView bs), grp', evs) \<and>
              header resp ''Content-Type'' = Some ''application/octet-stream'' \<and>
              body resp = bs)) \<and>
        status resp \<in> {200, 400, 404, 500}"
  proof (intro allI impI)
    fix resp groups'
    assume r: "ServeHTTP h groups path = Some (Inr (resp, groups'))"
    show "(status resp = 400 \<longleftrightarrow> CHR ''/'' \<notin> set rest) \<and>
        (status resp = 404 \<longleftrightarrow> CHR ''/'' \<in> set rest \<and> groups groupName = None) \<and>
        (status resp = 500 \<longleftrightarrow>
           CHR ''/'' \<in> set rest \<and>
           (\<exists>grp err grp' evs. groups groupName = Some grp \<and>
              Group_Get grp k = Some (Inl err, grp', evs))) \<and>
        (status resp = 200 \<longleftrightarrow>
           CHR ''/'' \<in> set rest \<and>
           (\<exists>grp bs grp' evs. groups groupName = Some grp \<and>
              Group_Get grp k = Some (Inr (ByteView bs), grp', evs) \<and>
              header resp ''Content-Type'' = Some ''application/octet-stream'' \<and>
              body resp = bs)) \<and>
        status resp \<in> {200, 400, 404, 500}"
    proof (cases "CHR ''/'' \<in> set rest")
      case False
      then have "resp = http_Error ''bad request'' 400" using c1 r by simp
      then show ?thesis using False by (simp add: http_Error_def)
    next
      case True
      show ?thesis
      proof (cases "groups groupName")
        case None
        then have "resp = http_Error (''no such group: '' @ groupName) 404" using c2 r True by simp
        then show ?thesis using True None by (simp add: http_Error_def)
      next
        case (Some grp)
        note sg = Some
        note c = c3[rule_format, OF conjI[OF True Some]]
        show ?thesis
        proof (cases "Group_Get grp k")
          case None
          then show ?thesis using c r by simp
        next
          case (Some res)
          obtain x grp' evs where res: "res = (x, grp', evs)" by (cases res)
          show ?thesis
          proof (cases x)
            case (Inl err)
            then have g: "Group_Get grp k = Some (Inl err, grp', evs)" using Some res by simp
            with c r have "resp = http_Error (error_Error err) 500" by simp
            then show ?thesis using True sg g by (simp add: http_Error_def)
          next
            case (Inr view)
            obtain bs where "view = ByteView bs" by (cases view)
            then have g: "Group_Get grp k = Some (Inr (ByteView bs), grp', evs)"
              using Some res Inr by simp
            with c r have "resp = \<lparr>status = 200,
                         header = [''Content-Type'' \<mapsto> ''application/octet-stream''],
                         body = bs\<rparr>" by simp
            then show ?thesis using True sg g by simp
          qed
        qed
      qed
    qed
  qed
  have c5: "\<forall>msg. ServeHTTP h groups path \<noteq> Some (Inl msg)"
    using assms(1)
    by (auto simp: ServeHTTP_def Let_def split: option.splits sum.splits prod.splits)
  show ?thesis using c1 c2 c3 c4 c5 by blast
qed

theorem C8_serve_http_witness:
  "map_option (map_sum id fst)
     (ServeHTTP (NewHTTPPool ''localhost:8001'')
        [''score'' \<mapsto> \<lparr>name = ''score'', maincache = \<lparr>lru = None, cacheBytes = 2048\<rparr>,
                         getter = main_getter, peers = None\<rparr>]
        ''/_geecache/unknown/Tom'') =
     Some (Inr (http_Error ''no such group: unknown'' 404)) \<and>
   map_option (map_sum id fst)
     (ServeHTTP (NewHTTPPool ''localhost:8001'')
        [''score'' \<mapsto> \<lparr>name = ''score'', maincache = \<lparr>lru = None, cacheBytes = 2048\<rparr>,
                         getter = main_getter, peers = None\<rparr>]
        ''/_geecache/score'') =
     Some (Inr (http_Error ''bad request'' 400)) \<and>
   map_option (map_sum id fst)
     (ServeHTTP (NewHTTPPool ''localhost:8001'')
        [''score'' \<mapsto> \<lparr>name = ''score'', maincache = \<lparr>lru = None, cacheBytes = 2048\<rparr>,
                         getter = main_getter, peers = None\<rparr>]
        ''/_geecache/score/Tom'') =
     Some (Inr \<lparr>status = 200, header = [''Content-Type'' \<mapsto> ''application/octet-stream''],
                body = ''630''\<rparr>)"
proof -
  let ?h = "NewHTTPPool ''localhost:8001''"
  let ?g = "\<lparr>name = ''score'', maincache = \<lparr>lru = None, cacheBytes = 2048\<rparr>,
             getter = main_getter, peers = None\<rparr>"
  let ?groups = "[''score'' \<mapsto> ?g]"
  have p1: "HasPrefix ''/_geecache/unknown/Tom'' (basePath ?h)"
    and p2: "HasPrefix ''/_geecache/score'' (basePath ?h)"
    and p3: "HasPrefix ''/_geecache/score/Tom'' (basePath ?h)"
    by (simp_all add: HasPrefix_def NewHTTPPool_def defaultBasePath_def)
  have b: "basePath ?h = ''/_geecache/''" by (simp add: NewHTTPPool_def defaultBasePath_def)
  have "\<exists>grp' evs. Group_Get ?g ''Tom'' = Some (Inr (ByteView ''630''), grp', evs)"
    by (simp add: Group_Get_def cache_get_def load_def getLocally_def main_getter_def db_def
          populateCache_def cache_add_def cloneBytes_id Cache_Add_def Add_upsert_def lru_New_def
          PushFront_def allocate_def Add_evict.simps Let_def)
  then obtain grp' evs where g: "Group_Get ?g ''Tom'' = Some (Inr (ByteView ''630''), grp', evs)"
    by blast
  have s3: "map_option (map_sum id fst) (ServeHTTP ?h ?groups ''/_geecache/score/Tom'') =
     Some (Inr \<lparr>status = 200, header = [''Content-Type'' \<mapsto> ''application/octet-stream''],
                body = ''630''\<rparr>)"
    using C8_serve_http[OF p3, of ?groups] g unfolding b by simp
  from C8_serve_http[OF p1, of ?groups] C8_serve_http[OF p2, of ?groups] s3
  show ?thesis unfolding b by simp
qed

end
